theory Spec2Isabelle
  imports Complex_Main "HOL-Library.AList" "HOL-Library.Log_Nat"
begin

section \<open>AirCargoNet: the network analyzer\<close>

text \<open>
  A shallow embedding of the class \<open>NetworkAnalyzer\<close> (services/networkAnalyzer.ts) and
  of the types it works on (types.ts).

  Conventions of the embedding.
  \<^item> A JavaScript \<open>number\<close> is an exact \<open>real\<close>: rounding of IEEE doubles is not
    modelled, with one exception. In the robustness sweep \<open>Math.floor\<close> truncates a
    product, and there the rounding decides a whole number; the quotient and the product
    under that \<open>Math.floor\<close> are rounded as doubles (\<open>round_double\<close>).
    Wherever the source can leave the finite numbers (a division by zero,
    arithmetic on \<open>undefined\<close>) the model says so with an explicit value
    (\<open>jsnum\<close>, or \<open>None\<close> for NaN in DomiRank).
  \<^item> A \<open>Set<string>\<close> is the list of its elements in insertion order, without
    repetition; \<open>add\<close> appends an element that is not yet there.
  \<^item> A \<open>Map<string, V>\<close> is an association list in insertion order;
    \<open>get\<close> is \<open>map_of\<close>, \<open>set\<close> is \<open>AList.update\<close> (an existing key keeps its
    place, a new key goes to the end).
  \<^item> The object's fields are a record; a method is a function of that record. The methods
    behind \<open>calculateAllMetrics\<close> are given a second time as operations on the object,
    which return the object as they leave it, and the two are proved to agree.
\<close>

subsection \<open>Types (types.ts)\<close>

record Node =
  node_id :: string
  name :: string
  city :: string
  lat :: real
  lng :: real

record Edge =
  source :: string
  target :: string
  weight :: real

record CentralityMetrics =
  degree :: real
  inDegree :: real
  outDegree :: real
  betweenness :: real
  closeness :: real
  pageRank :: real
  domiRank :: real

type_synonym jsset = "string list"
type_synonym 'v jsmap = "(string \<times> 'v) list"

text \<open>\<open>s.add(x)\<close> on a Set.\<close>

definition set_add :: "string \<Rightarrow> jsset \<Rightarrow> jsset" where
  "set_add x s = (if x \<in> set s then s else s @ [x])"

text \<open>\<open>m.get(k)?.add(x)\<close>: nothing happens when \<open>k\<close> is not a key of \<open>m\<close>.\<close>

definition opt_add :: "jsset jsmap \<Rightarrow> string \<Rightarrow> string \<Rightarrow> jsset jsmap" where
  "opt_add m k x =
     (case map_of m k of None \<Rightarrow> m | Some s \<Rightarrow> AList.update k (set_add x s) m)"

text \<open>
  \<open>m.get(k)!\<close>: the non-null assertion is erased at run time. It is used in the model
  only where the key is present; for an absent key the value is left unspecified, so
  that no theorem can rest on it.
\<close>

definition get_bang :: "'v jsmap \<Rightarrow> string \<Rightarrow> 'v" where
  "get_bang m k = the (map_of m k)"

text \<open>\<open>m.get(k)?.size || 0\<close> and \<open>m.get(k) || 0\<close>.\<close>

definition size_or_0 :: "jsset jsmap \<Rightarrow> string \<Rightarrow> real" where
  "size_or_0 m k = (case map_of m k of None \<Rightarrow> 0 | Some s \<Rightarrow> real (length s))"

definition get_or_0 :: "real jsmap \<Rightarrow> string \<Rightarrow> real" where
  "get_or_0 m k = (case map_of m k of None \<Rightarrow> 0 | Some x \<Rightarrow> x)"

subsection \<open>The constructor\<close>

record NetworkAnalyzer =
  nodes :: "Node list"
  edges :: "Edge list"
  adj :: "jsset jsmap"
  revAdj :: "jsset jsmap"
  weights :: "real jsmap"

definition init_sets :: "Node list \<Rightarrow> jsset jsmap" where
  "init_sets ns = fold (\<lambda>n m. AList.update (node_id n) [] m) ns []"

definition weight_key :: "Edge \<Rightarrow> string" where
  "weight_key e = source e @ ''->'' @ target e"

definition add_edge :: "Edge \<Rightarrow> NetworkAnalyzer \<Rightarrow> NetworkAnalyzer" where
  "add_edge e g =
     g\<lparr>adj := opt_add (adj g) (source e) (target e),
       revAdj := opt_add (revAdj g) (target e) (source e),
       weights := AList.update (weight_key e) (weight e) (weights g)\<rparr>"

definition new_NetworkAnalyzer :: "Node list \<Rightarrow> Edge list \<Rightarrow> NetworkAnalyzer" where
  "new_NetworkAnalyzer ns es =
     fold add_edge es
       \<lparr>nodes = ns, edges = es, adj = init_sets ns, revAdj = init_sets ns, weights = []\<rparr>"

subsection \<open>Degrees\<close>

definition calculateInDegrees :: "NetworkAnalyzer \<Rightarrow> real jsmap" where
  "calculateInDegrees g =
     fold (\<lambda>n m. AList.update (node_id n) (size_or_0 (revAdj g) (node_id n)) m) (nodes g) []"

definition calculateOutDegrees :: "NetworkAnalyzer \<Rightarrow> real jsmap" where
  "calculateOutDegrees g =
     fold (\<lambda>n m. AList.update (node_id n) (size_or_0 (adj g) (node_id n)) m) (nodes g) []"

subsection \<open>Normalized giant component\<close>

definition successors :: "jsset jsmap \<Rightarrow> string \<Rightarrow> string list" where
  "successors m v = (case map_of m v of None \<Rightarrow> [] | Some s \<Rightarrow> s)"

definition ngc_adj :: "Node list \<Rightarrow> Edge list \<Rightarrow> jsset jsmap" where
  "ngc_adj ns es =
     fold (\<lambda>e m. opt_add (opt_add m (source e) (target e)) (target e) (source e)) es
       (init_sets ns)"

definition ngc_visit :: "string \<Rightarrow> jsset \<times> string list \<Rightarrow> jsset \<times> string list" where
  "ngc_visit neighbor = (\<lambda>(visited, queue).
     if neighbor \<in> set visited then (visited, queue)
     else (visited @ [neighbor], queue @ [neighbor]))"

definition all_members :: "jsset jsmap \<Rightarrow> string set" where
  "all_members m = (\<Union>kv \<in> set m. set (snd kv))"

lemma finite_all_members: "finite (all_members m)"
  by (simp add: all_members_def)

lemma successors_subset: "set (successors m v) \<subseteq> all_members m"
proof (cases "map_of m v")
  case None
  then show ?thesis by (simp add: successors_def)
next
  case (Some s)
  then have "(v, s) \<in> set m" by (rule map_of_SomeD)
  then have "set s \<subseteq> all_members m" by (force simp: all_members_def)
  with Some show ?thesis by (simp add: successors_def)
qed

lemma ngc_visit_pair:
  "ngc_visit w (vis, q) = (if w \<in> set vis then (vis, q) else (vis @ [w], q @ [w]))"
  by (simp add: ngc_visit_def)

lemma ngc_visit_fold:
  assumes "fold ngc_visit ws (vis, q) = (vis', q')" and "set ws \<subseteq> U" and "finite U"
  shows "(vis' = vis \<and> q' = q) \<or> card (U - set vis') < card (U - set vis)"
  using assms
proof (induction ws arbitrary: vis q)
  case Nil
  then show ?case by simp
next
  case (Cons w ws)
  show ?case
  proof (cases "w \<in> set vis")
    case True
    with Cons show ?thesis by (simp add: ngc_visit_pair)
  next
    case False
    with Cons.prems have f: "fold ngc_visit ws (vis @ [w], q @ [w]) = (vis', q')"
      by (simp add: ngc_visit_pair)
    have lt: "card (U - set (vis @ [w])) < card (U - set vis)"
    proof -
      have "U - set (vis @ [w]) = (U - set vis) - {w}" by auto
      moreover have "w \<in> U - set vis" using False Cons.prems(2) by simp
      moreover have "finite (U - set vis)" using Cons.prems(3) by simp
      ultimately show ?thesis by (simp only: card_Diff1_less)
    qed
    from Cons.IH[OF f] Cons.prems(2,3)
    have "(vis' = vis @ [w] \<and> q' = q @ [w]) \<or> card (U - set vis') < card (U - set (vis @ [w]))"
      by simp
    with lt show ?thesis by auto
  qed
qed

function ngc_bfs :: "jsset jsmap \<Rightarrow> jsset \<Rightarrow> string list \<Rightarrow> nat \<Rightarrow> jsset \<times> nat" where
  "ngc_bfs a visited [] currentSize = (visited, currentSize)"
| "ngc_bfs a visited (v # queue) currentSize =
     (case fold ngc_visit (successors a v) (visited, queue) of
        (visited', queue') \<Rightarrow> ngc_bfs a visited' queue' (currentSize + 1))"
  by pat_completeness auto
termination
  apply (relation "inv_image (less_than <*lex*> less_than)
    (\<lambda>(a, visited, queue, n). (card (all_members a - set visited), length queue))")
   apply (intro wf_inv_image wf_lex_prod wf_less_than)
  subgoal for a visited v queue currentSize visited' queue'
    using ngc_visit_fold[of "successors a v" visited queue visited' queue' "all_members a",
        OF _ successors_subset finite_all_members]
    by auto
  done

declare ngc_bfs.simps [simp del]

definition ngc_component :: "jsset jsmap \<Rightarrow> Node \<Rightarrow> jsset \<times> nat \<Rightarrow> jsset \<times> nat" where
  "ngc_component a node = (\<lambda>(visited, maxComponentSize).
     if node_id node \<in> set visited then (visited, maxComponentSize)
     else (case ngc_bfs a (visited @ [node_id node]) [node_id node] 0 of
             (visited', currentSize) \<Rightarrow> (visited', max maxComponentSize currentSize)))"

definition maxComponentSize :: "Node list \<Rightarrow> Edge list \<Rightarrow> nat" where
  "maxComponentSize ns es = snd (fold (ngc_component (ngc_adj ns es)) ns ([], 0))"

definition calculateNGC :: "Node list \<Rightarrow> Edge list \<Rightarrow> real" where
  "calculateNGC ns es =
     (if length ns = 0 then 0 else real (maxComponentSize ns es) / real (length ns))"

subsection \<open>Breadth-first search over outbound edges\<close>

record reach_state =
  r_d :: "int jsmap"
  r_queue :: "string list"
  r_totalDist :: int
  r_reachableCount :: nat

definition reach_visit :: "string \<Rightarrow> string \<Rightarrow> reach_state \<Rightarrow> reach_state" where
  "reach_visit v w st =
     (if map_of (r_d st) w = Some (- 1) then
        (let d' = AList.update w (get_bang (r_d st) v + 1) (r_d st)
         in st\<lparr>r_d := d',
                r_totalDist := r_totalDist st + get_bang d' w,
                r_reachableCount := r_reachableCount st + 1,
                r_queue := r_queue st @ [w]\<rparr>)
      else st)"

text \<open>Termination of the searches: what a visit does to the distances and the queue.\<close>

definition dq_visit :: "string \<Rightarrow> string \<Rightarrow> int jsmap \<times> string list \<Rightarrow> int jsmap \<times> string list" where
  "dq_visit v w = (\<lambda>(d, q).
     if map_of d w = Some (- 1) then (AList.update w (get_bang d v + 1) d, q @ [w]) else (d, q))"

definition unvisited :: "int jsmap \<Rightarrow> nat" where
  "unvisited d = length (filter (\<lambda>kv. snd kv = - 1) d)"

definition adj_bound :: "jsset jsmap \<Rightarrow> nat" where
  "adj_bound a = sum_list (map (\<lambda>kv. length (snd kv)) a)"

definition queue_weight :: "jsset jsmap \<Rightarrow> int jsmap \<Rightarrow> string list \<Rightarrow> nat" where
  "queue_weight a d q =
     sum_list (map (\<lambda>v. if get_bang d v = - 2 then adj_bound a + 1 else 1) q)"

lemma dq_visit_pair:
  "dq_visit v w (d, q) =
     (if map_of d w = Some (- 1) then (AList.update w (get_bang d v + 1) d, q @ [w]) else (d, q))"
  by (simp add: dq_visit_def)

lemma unvisited_update:
  "map_of d w = Some (- 1) \<Longrightarrow> x \<noteq> - 1 \<Longrightarrow> unvisited (AList.update w x d) < unvisited d"
  by (induction d) (auto simp: unvisited_def split: if_splits)

lemma length_successors: "length (successors a v) \<le> adj_bound a"
proof (cases "map_of a v")
  case None
  then show ?thesis by (simp add: successors_def)
next
  case (Some s)
  then have "(v, s) \<in> set a" by (rule map_of_SomeD)
  then have "length s \<le> adj_bound a"
    by (induction a) (auto simp: adj_bound_def)
  with Some show ?thesis by (simp add: successors_def)
qed

lemma dq_fold:
  assumes "fold (dq_visit v) ws (d, q) = (d', q')"
  shows "unvisited d' < unvisited d \<or>
         (d' = d \<and> (\<exists>ps. q' = q @ ps \<and> length ps \<le> length ws \<and>
              (get_bang d v \<noteq> - 2 \<longrightarrow> ps = []) \<and> (\<forall>p \<in> set ps. get_bang d p = - 1)))"
  using assms
proof (induction ws arbitrary: d q)
  case Nil
  then show ?case by simp
next
  case (Cons w ws)
  show ?case
  proof (cases "map_of d w = Some (- 1)")
    case False
    with Cons.prems have "fold (dq_visit v) ws (d, q) = (d', q')"
      by (simp add: dq_visit_pair)
    from Cons.IH[OF this] show ?thesis by auto
  next
    case True
    show ?thesis
    proof (cases "get_bang d v = - 2")
      case True
      from \<open>map_of d w = Some (- 1)\<close> have "AList.update w (- 1) d = d"
        by (rule update_triv)
      with True \<open>map_of d w = Some (- 1)\<close> Cons.prems
      have "fold (dq_visit v) ws (d, q @ [w]) = (d', q')"
        by (simp add: dq_visit_pair)
      from Cons.IH[OF this] \<open>map_of d w = Some (- 1)\<close> True show ?thesis
        by (auto simp: get_bang_def)
    next
      case False
      let ?d1 = "AList.update w (get_bang d v + 1) d"
      from False have "get_bang d v + 1 \<noteq> - 1" by simp
      with \<open>map_of d w = Some (- 1)\<close> have lt: "unvisited ?d1 < unvisited d"
        by (rule unvisited_update)
      from \<open>map_of d w = Some (- 1)\<close> Cons.prems
      have "fold (dq_visit v) ws (?d1, q @ [w]) = (d', q')"
        by (simp add: dq_visit_pair)
      from Cons.IH[OF this] lt show ?thesis by auto
    qed
  qed
qed

lemma queue_weight_append:
  "queue_weight a d (q @ ps) = queue_weight a d q + queue_weight a d ps"
  by (simp add: queue_weight_def)

lemma queue_weight_unit:
  "\<forall>p \<in> set ps. get_bang d p = - 1 \<Longrightarrow> queue_weight a d ps = length ps"
  by (induction ps) (auto simp: queue_weight_def)

lemma dq_fold_decreases:
  assumes "fold (dq_visit v) (successors a v) (d, q) = (d', q')"
  shows "((unvisited d', queue_weight a d' q'), (unvisited d, queue_weight a d (v # q)))
           \<in> less_than <*lex*> less_than"
proof -
  from dq_fold[OF assms] consider "unvisited d' < unvisited d"
    | ps where "d' = d" "q' = q @ ps" "length ps \<le> length (successors a v)"
        "get_bang d v \<noteq> - 2 \<longrightarrow> ps = []" "\<forall>p \<in> set ps. get_bang d p = - 1"
    by blast
  then show ?thesis
  proof cases
    case 1
    then show ?thesis by simp
  next
    case 2
    have w: "queue_weight a d q' = queue_weight a d q + length ps"
      using 2 by (simp add: queue_weight_append queue_weight_unit)
    have "length ps < (if get_bang d v = - 2 then adj_bound a + 1 else 1)"
      using 2(3,4) length_successors[of a v] by (auto split: if_splits)
    then have "queue_weight a d q' < queue_weight a d (v # q)"
      using w by (simp add: queue_weight_def)
    with 2 show ?thesis by simp
  qed
qed

lemma reach_visit_dq:
  "(r_d (reach_visit v w st), r_queue (reach_visit v w st)) = dq_visit v w (r_d st, r_queue st)"
  by (simp add: reach_visit_def dq_visit_pair Let_def)

lemma reach_fold_dq:
  "(r_d (fold (reach_visit v) ws st), r_queue (fold (reach_visit v) ws st)) =
     fold (dq_visit v) ws (r_d st, r_queue st)"
proof (induction ws arbitrary: st)
  case Nil
  then show ?case by simp
next
  case (Cons w ws)
  show ?case
    using Cons.IH[of "reach_visit v w st"] by (simp add: reach_visit_dq)
qed

function reach_bfs :: "jsset jsmap \<Rightarrow> reach_state \<Rightarrow> reach_state" where
  "reach_bfs a st =
     (case r_queue st of
        [] \<Rightarrow> st
      | v # queue \<Rightarrow> reach_bfs a (fold (reach_visit v) (successors a v) (st\<lparr>r_queue := queue\<rparr>)))"
  by pat_completeness auto
termination
  apply (relation "inv_image (less_than <*lex*> less_than)
    (\<lambda>(a, st). (unvisited (r_d st), queue_weight a (r_d st) (r_queue st)))")
   apply (intro wf_inv_image wf_lex_prod wf_less_than)
  subgoal for a st v queue
    using dq_fold_decreases[of v a "r_d st" queue
        "r_d (fold (reach_visit v) (successors a v) (st\<lparr>r_queue := queue\<rparr>))"
        "r_queue (fold (reach_visit v) (successors a v) (st\<lparr>r_queue := queue\<rparr>))"]
      reach_fold_dq[of v "successors a v" "st\<lparr>r_queue := queue\<rparr>"]
    by simp
  done

declare reach_bfs.simps [simp del]

subsection \<open>Betweenness (Brandes)\<close>

record between_state =
  b_stack :: "string list"
  b_P :: "string list jsmap"
  b_sigma :: "real jsmap"
  b_d :: "int jsmap"
  b_queue :: "string list"

definition between_visit :: "string \<Rightarrow> string \<Rightarrow> between_state \<Rightarrow> between_state" where
  "between_visit v w st =
     (let st1 =
        (if map_of (b_d st) w = Some (- 1) then
           st\<lparr>b_d := AList.update w (get_bang (b_d st) v + 1) (b_d st),
              b_queue := b_queue st @ [w]\<rparr>
         else st)
      in
        if map_of (b_d st1) w = Some (get_bang (b_d st1) v + 1) then
          st1\<lparr>b_sigma :=
                 AList.update w (get_bang (b_sigma st1) w + get_bang (b_sigma st1) v) (b_sigma st1),
               b_P := AList.update w (get_bang (b_P st1) w @ [v]) (b_P st1)\<rparr>
        else st1)"

lemma between_visit_dq:
  "(b_d (between_visit v w st), b_queue (between_visit v w st)) =
     dq_visit v w (b_d st, b_queue st)"
  by (simp add: between_visit_def dq_visit_pair Let_def)

lemma between_fold_dq:
  "(b_d (fold (between_visit v) ws st), b_queue (fold (between_visit v) ws st)) =
     fold (dq_visit v) ws (b_d st, b_queue st)"
proof (induction ws arbitrary: st)
  case Nil
  then show ?case by simp
next
  case (Cons w ws)
  show ?case
    using Cons.IH[of "between_visit v w st"] by (simp add: between_visit_dq)
qed

function between_bfs :: "jsset jsmap \<Rightarrow> between_state \<Rightarrow> between_state" where
  "between_bfs a st =
     (case b_queue st of
        [] \<Rightarrow> st
      | v # queue \<Rightarrow>
          between_bfs a
            (fold (between_visit v) (successors a v)
               (st\<lparr>b_queue := queue, b_stack := b_stack st @ [v]\<rparr>)))"
  by pat_completeness auto
termination
  apply (relation "inv_image (less_than <*lex*> less_than)
    (\<lambda>(a, st). (unvisited (b_d st), queue_weight a (b_d st) (b_queue st)))")
   apply (intro wf_inv_image wf_lex_prod wf_less_than)
  subgoal for a st v queue
    using dq_fold_decreases[of v a "b_d st" queue
        "b_d (fold (between_visit v) (successors a v)
               (st\<lparr>b_queue := queue, b_stack := b_stack st @ [v]\<rparr>))"
        "b_queue (fold (between_visit v) (successors a v)
               (st\<lparr>b_queue := queue, b_stack := b_stack st @ [v]\<rparr>))"]
      between_fold_dq[of v "successors a v" "st\<lparr>b_queue := queue, b_stack := b_stack st @ [v]\<rparr>"]
    by simp
  done

declare between_bfs.simps [simp del]

definition init_map :: "Node list \<Rightarrow> 'v \<Rightarrow> 'v jsmap" where
  "init_map ns x = fold (\<lambda>n m. AList.update (node_id n) x m) ns []"

definition back_step :: "real jsmap \<Rightarrow> string \<Rightarrow> string \<Rightarrow> real jsmap \<Rightarrow> real jsmap" where
  "back_step sigma w v delta =
     AList.update v
       (get_bang delta v + (get_bang sigma v / get_bang sigma w) * (1 + get_bang delta w)) delta"

definition back_node ::
  "between_state \<Rightarrow> string \<Rightarrow> string \<Rightarrow> real jsmap \<times> real jsmap \<Rightarrow> real jsmap \<times> real jsmap" where
  "back_node st s w = (\<lambda>(delta, cb).
     let delta' = fold (back_step (b_sigma st) w) (successors (b_P st) w) delta
     in (delta', if w \<noteq> s then AList.update w (get_bang cb w + get_bang delta' w) cb else cb))"

definition between_source :: "NetworkAnalyzer \<Rightarrow> Node \<Rightarrow> real jsmap \<Rightarrow> real jsmap" where
  "between_source g s cb =
     (let st = between_bfs (adj g)
            \<lparr>b_stack = [],
             b_P = init_map (nodes g) [],
             b_sigma = AList.update (node_id s) 1 (init_map (nodes g) 0),
             b_d = AList.update (node_id s) 0 (init_map (nodes g) (- 1)),
             b_queue = [node_id s]\<rparr>
      in snd (fold (back_node st (node_id s)) (rev (b_stack st)) (init_map (nodes g) 0, cb)))"

definition calculateBetweenness :: "NetworkAnalyzer \<Rightarrow> real jsmap" where
  "calculateBetweenness g =
     (let cb = fold (between_source g) (nodes g) (init_map (nodes g) 0);
          n = int (length (nodes g));
          norm = (n - 1) * (n - 2)
      in if norm > 0
         then fold (\<lambda>node m. AList.update (node_id node)
                     (get_bang m (node_id node) / real_of_int norm) m) (nodes g) cb
         else cb)"

subsection \<open>Closeness\<close>

definition reach_from :: "NetworkAnalyzer \<Rightarrow> Node \<Rightarrow> int \<Rightarrow> nat \<Rightarrow> reach_state" where
  "reach_from g s totalDist reachableCount =
     reach_bfs (adj g)
       \<lparr>r_d = AList.update (node_id s) 0 (init_map (nodes g) (- 1)),
        r_queue = [node_id s], r_totalDist = totalDist, r_reachableCount = reachableCount\<rparr>"

definition closeness_source :: "NetworkAnalyzer \<Rightarrow> Node \<Rightarrow> real jsmap \<Rightarrow> real jsmap" where
  "closeness_source g s cl =
     (let st = reach_from g s 0 0
      in if r_reachableCount st > 0
         then AList.update (node_id s)
                (real (r_reachableCount st) / real_of_int (r_totalDist st)) cl
         else AList.update (node_id s) 0 cl)"

definition calculateCloseness :: "NetworkAnalyzer \<Rightarrow> real jsmap" where
  "calculateCloseness g = fold (closeness_source g) (nodes g) []"

subsection \<open>PageRank\<close>

datatype error = TypeError

definition pr_contrib ::
  "NetworkAnalyzer \<Rightarrow> real jsmap \<Rightarrow> string \<Rightarrow> error + real \<Rightarrow> error + real" where
  "pr_contrib g pr neighbor acc =
     (case acc of
        Inl e \<Rightarrow> Inl e
      | Inr sum_in \<Rightarrow>
          (case map_of (adj g) neighbor of
             None \<Rightarrow> Inl TypeError
           | Some s \<Rightarrow> Inr (sum_in + get_bang pr neighbor / real (length s))))"

definition pr_node ::
  "NetworkAnalyzer \<Rightarrow> real \<Rightarrow> real jsmap \<Rightarrow> real \<Rightarrow> Node \<Rightarrow> error + real jsmap
     \<Rightarrow> error + real jsmap" where
  "pr_node g alpha pr sinkPr node acc =
     (case acc of
        Inl e \<Rightarrow> Inl e
      | Inr nextPr \<Rightarrow>
          (case fold (pr_contrib g pr) (successors (revAdj g) (node_id node)) (Inr 0) of
             Inl e \<Rightarrow> Inl e
           | Inr sum_in \<Rightarrow>
               Inr (AList.update (node_id node)
                     ((1 - alpha) / real (length (nodes g))
                        + alpha * (sum_in + sinkPr / real (length (nodes g)))) nextPr)))"

definition pr_sink :: "NetworkAnalyzer \<Rightarrow> real jsmap \<Rightarrow> Node \<Rightarrow> real \<Rightarrow> real" where
  "pr_sink g pr node sinkPr =
     (if length (get_bang (adj g) (node_id node)) = 0
      then sinkPr + get_bang pr (node_id node) else sinkPr)"

definition pr_iteration :: "NetworkAnalyzer \<Rightarrow> real \<Rightarrow> real jsmap \<Rightarrow> error + real jsmap" where
  "pr_iteration g alpha pr =
     fold (pr_node g alpha pr (fold (pr_sink g pr) (nodes g) 0)) (nodes g) (Inr [])"

fun pr_loop :: "nat \<Rightarrow> NetworkAnalyzer \<Rightarrow> real \<Rightarrow> real jsmap \<Rightarrow> error + real jsmap" where
  "pr_loop 0 g alpha pr = Inr pr"
| "pr_loop (Suc i) g alpha pr =
     (case pr_iteration g alpha pr of
        Inl e \<Rightarrow> Inl e
      | Inr nextPr \<Rightarrow> pr_loop i g alpha nextPr)"

definition calculatePageRank :: "NetworkAnalyzer \<Rightarrow> real \<Rightarrow> nat \<Rightarrow> error + real jsmap" where
  "calculatePageRank g alpha iterations =
     pr_loop iterations g alpha (init_map (nodes g) (1 / real (length (nodes g))))"

subsection \<open>DomiRank\<close>

text \<open>
  DomiRank values are \<open>real option\<close>: \<open>None\<close> is NaN, which the source produces when it
  adds \<open>gamma.get(x)\<close> for an id \<open>x\<close> that is not a node. NaN is absorbing in every
  operation used below, \<open>Math.max(0, NaN)\<close> is NaN and \<open>NaN > 0\<close> is false. No infinity
  can arise: the only divisions are by the number of nodes, inside a loop over the nodes,
  and by a positive total.
\<close>

type_synonym num = "real option"

definition nan_lift2 :: "(real \<Rightarrow> real \<Rightarrow> real) \<Rightarrow> num \<Rightarrow> num \<Rightarrow> num" where
  "nan_lift2 f a b = (case a of None \<Rightarrow> None | Some x \<Rightarrow> (case b of None \<Rightarrow> None | Some y \<Rightarrow> Some (f x y)))"

definition gamma_get :: "num jsmap \<Rightarrow> string \<Rightarrow> num" where
  "gamma_get gamma k = (case map_of gamma k of None \<Rightarrow> None | Some x \<Rightarrow> x)"

definition domi_node ::
  "NetworkAnalyzer \<Rightarrow> real \<Rightarrow> real \<Rightarrow> real \<Rightarrow> num jsmap \<Rightarrow> Node \<Rightarrow> num jsmap \<Rightarrow> num jsmap" where
  "domi_node g alpha beta theta gamma node nextGamma =
     (let ki = real (length (get_bang (adj g) (node_id node))
                     + length (get_bang (revAdj g) (node_id node)));
          sum1 = fold (\<lambda>target s. nan_lift2 (+) s (gamma_get gamma target))
                   (successors (adj g) (node_id node)) (Some 0);
          sumNeighbors = fold (\<lambda>source s. nan_lift2 (+) s (gamma_get gamma source))
                   (successors (revAdj g) (node_id node)) sum1;
          currentVal = gamma_get gamma (node_id node);
          delta = nan_lift2 (-) (nan_lift2 (*) (Some alpha) (nan_lift2 (-) (Some (theta * ki)) sumNeighbors))
                    (nan_lift2 (*) (Some beta) currentVal)
      in AList.update (node_id node)
           (nan_lift2 max (Some 0) (nan_lift2 (+) currentVal delta)) nextGamma)"

definition domi_iteration :: "NetworkAnalyzer \<Rightarrow> real \<Rightarrow> real \<Rightarrow> real \<Rightarrow> num jsmap \<Rightarrow> num jsmap" where
  "domi_iteration g alpha beta theta gamma =
     fold (domi_node g alpha beta theta gamma) (nodes g) []"

definition domi_total :: "num jsmap \<Rightarrow> num" where
  "domi_total gamma = fold (\<lambda>kv t. nan_lift2 (+) t (snd kv)) gamma (Some 0)"

definition num_gt0 :: "num \<Rightarrow> bool" where
  "num_gt0 x = (case x of None \<Rightarrow> False | Some r \<Rightarrow> r > 0)"

definition domi_loop :: "NetworkAnalyzer \<Rightarrow> real \<Rightarrow> real \<Rightarrow> nat \<Rightarrow> num jsmap" where
  "domi_loop g alpha beta iterations =
     ((domi_iteration g alpha beta 1) ^^ iterations)
       (init_map (nodes g) (Some (1 / real (length (nodes g)))))"

definition calculateDomiRank :: "NetworkAnalyzer \<Rightarrow> real \<Rightarrow> real \<Rightarrow> nat \<Rightarrow> num jsmap" where
  "calculateDomiRank g alpha beta iterations =
     (let gamma = domi_loop g alpha beta iterations;
          total = domi_total gamma
      in if num_gt0 total
         then fold (\<lambda>node m. AList.update (node_id node)
                      (nan_lift2 (/) (gamma_get m (node_id node)) total) m) (nodes g) gamma
         else gamma)"

subsection \<open>All metrics\<close>

definition num_or_0 :: "num jsmap \<Rightarrow> string \<Rightarrow> real" where
  "num_or_0 m k = (case map_of m k of Some (Some x) \<Rightarrow> x | _ \<Rightarrow> 0)"

definition calculateAllMetrics :: "NetworkAnalyzer \<Rightarrow> error + CentralityMetrics jsmap" where
  "calculateAllMetrics g =
     (let inDegrees = calculateInDegrees g;
          outDegrees = calculateOutDegrees g;
          betweenness_map = calculateBetweenness g;
          closeness_map = calculateCloseness g
      in case calculatePageRank g (85 / 100) 50 of
           Inl e \<Rightarrow> Inl e
         | Inr pageRank_map \<Rightarrow>
             (let domiRank_map = calculateDomiRank g (1 / 10) (1 / 10) 100
              in Inr (fold (\<lambda>node metrics.
                   AList.update (node_id node)
                     \<lparr>degree = get_or_0 inDegrees (node_id node) + get_or_0 outDegrees (node_id node),
                      inDegree = get_or_0 inDegrees (node_id node),
                      outDegree = get_or_0 outDegrees (node_id node),
                      betweenness = get_or_0 betweenness_map (node_id node),
                      closeness = get_or_0 closeness_map (node_id node),
                      pageRank = get_or_0 pageRank_map (node_id node),
                      domiRank = num_or_0 domiRank_map (node_id node)\<rparr> metrics)
                 (nodes g) [])))"

subsection \<open>The methods as operations on the object\<close>

text \<open>
  The same methods once more, now as operations on the state of the object: each takes
  the object and returns its result together with the object as the method leaves it.
  The state is threaded through every statement that touches \<open>this\<close>, in the order of
  the source. The only accesses to \<open>this\<close> in \<open>calculateAllMetrics\<close> and in the methods
  it calls are the reads below; a statement that wrote to a field or to a container
  held by a field would be an update of the record here.
\<close>

type_synonym 'a operation = "NetworkAnalyzer \<Rightarrow> 'a \<times> NetworkAnalyzer"




text \<open>
  \<open>xs.forEach(x => body)\<close>: the callback works on the local variables it captures
  (\<open>acc\<close>) and on the object.
\<close>

definition forEach :: "'x list \<Rightarrow> ('x \<Rightarrow> 'acc \<Rightarrow> 'acc operation) \<Rightarrow> 'acc \<Rightarrow> 'acc operation" where
  "forEach xs body acc g = fold (\<lambda>x (acc, g). body x acc g) xs (acc, g)"



























subsection \<open>Network statistics\<close>

datatype jsnum = Finite real | Infinity | NegInfinity | NaN

text \<open>
  \<open>a / b\<close> where the divisor may be zero; \<open>negzero\<close> says that a zero divisor is \<open>-0\<close>
  (the product \<open>0 * (0 - 1)\<close> is \<open>-0\<close> in IEEE arithmetic).
\<close>

definition js_div :: "real \<Rightarrow> real \<Rightarrow> bool \<Rightarrow> jsnum" where
  "js_div a b negzero =
     (if b \<noteq> 0 then Finite (a / b)
      else if a = 0 then NaN
      else if (a > 0) \<noteq> negzero then Infinity else NegInfinity)"

record NetworkStats =
  nodeCount :: nat
  edgeCount :: nat
  density :: jsnum
  avgClustering :: jsnum
  avgShortestPath :: real
  ngc :: real

definition clustering_node :: "NetworkAnalyzer \<Rightarrow> Node \<Rightarrow> real \<Rightarrow> real" where
  "clustering_node g node totalClustering =
     (let neighborList =
            fold set_add (get_bang (adj g) (node_id node) @ get_bang (revAdj g) (node_id node)) [];
          k = length neighborList
      in if k < 2 then totalClustering
         else
           (let actualEdges =
              sum_list (map (\<lambda>i. sum_list (map (\<lambda>j.
                  if i \<noteq> j \<and> neighborList ! j \<in> set (successors (adj g) (neighborList ! i))
                  then 1 else 0) [0..<k])) [0..<k])
            in totalClustering + real actualEdges / real (k * (k - 1))))"

definition path_source :: "NetworkAnalyzer \<Rightarrow> Node \<Rightarrow> int \<times> nat \<Rightarrow> int \<times> nat" where
  "path_source g s = (\<lambda>(totalPath, pathCount).
     let st = reach_from g s totalPath pathCount in (r_totalDist st, r_reachableCount st))"

definition getStats :: "NetworkAnalyzer \<Rightarrow> NetworkStats" where
  "getStats g =
     (let nodeCount = length (nodes g);
          edgeCount = length (edges g);
          totalClustering = fold (clustering_node g) (nodes g) 0;
          (totalPath, pathCount) = fold (path_source g) (nodes g) (0, 0)
      in \<lparr>nodeCount = nodeCount,
          edgeCount = edgeCount,
          density = js_div (real edgeCount) (real_of_int (int nodeCount * (int nodeCount - 1)))
                      (nodeCount = 0),
          avgClustering = js_div totalClustering (real nodeCount) False,
          avgShortestPath =
            (if pathCount > 0 then real_of_int totalPath / real pathCount else 0),
          ngc = calculateNGC (nodes g) (edges g)\<rparr>)"

subsection \<open>Robustness simulation\<close>

datatype strategy = Random | Degree | Betweenness | PageRank | DomiRank

record RobustnessPoint =
  removalRatio :: real
  point_ngc :: real
  point_strategy :: strategy

text \<open>
  \<open>Array.prototype.sort\<close> is stable, and for a comparator that orders by a key its result
  is the one stable arrangement: insertion from the right.
\<close>

fun insert_sorted :: "('a \<Rightarrow> 'a \<Rightarrow> real) \<Rightarrow> 'a \<Rightarrow> 'a list \<Rightarrow> 'a list" where
  "insert_sorted cmp x [] = [x]"
| "insert_sorted cmp x (y # ys) =
     (if cmp x y \<le> 0 then x # y # ys else y # insert_sorted cmp x ys)"

definition js_sort :: "('a \<Rightarrow> 'a \<Rightarrow> real) \<Rightarrow> 'a list \<Rightarrow> 'a list" where
  "js_sort cmp xs = foldr (insert_sorted cmp) xs []"

definition compare_by ::
  "strategy \<Rightarrow> CentralityMetrics jsmap \<Rightarrow> string \<Rightarrow> string \<Rightarrow> real" where
  "compare_by strat metrics a b =
     (let ma = get_bang metrics a; mb = get_bang metrics b
      in if strat = Degree then degree mb - degree ma
         else if strat = Betweenness then betweenness mb - betweenness ma
         else if strat = PageRank then pageRank mb - pageRank ma
         else if strat = DomiRank then domiRank mb - domiRank ma
         else 0)"

text \<open>
  The loop body truncates: \<open>Math.floor(ratio * this.nodes.length)\<close> with
  \<open>ratio = i / steps\<close>. Here the rounding of the two double operations can change the
  whole number that comes out (\<open>14 / 20 * 90\<close> is a double just below 63, and 62 nodes are
  removed), so both are rounded as IEEE 754 binary64 does: to 53 significant bits, to
  nearest, ties to even, with the fixed spacing \<open>2 powi - 1074\<close> below \<open>2 powi - 1022\<close>.

  \<open>exponent x\<close> is the integer \<open>e\<close> with \<open>2 powi e \<le> x < 2 powi (e + 1)\<close> for positive
  \<open>x\<close>. Magnitudes from \<open>2 ^ 53\<close> on are left as they are: the numbers rounded here are
  bounded by the length of an array, which is below \<open>2 ^ 32\<close>.
\<close>

definition round_even :: "real \<Rightarrow> int" where
  "round_even y =
     (let f = \<lfloor>y\<rfloor>; r = y - of_int f
      in if r < 1 / 2 then f else if r > 1 / 2 then f + 1 else if even f then f else f + 1)"

definition exponent :: "real \<Rightarrow> int" where
  "exponent x = (if 1 \<le> x then bitlen \<lfloor>x\<rfloor> - 1 else - bitlen (\<lceil>1 / x\<rceil> - 1))"

definition ulp_exponent :: "real \<Rightarrow> int" where
  "ulp_exponent x = max (exponent x) (- 1022) - 52"

definition round_double :: "real \<Rightarrow> real" where
  "round_double x =
     (if x = 0 \<or> 2 ^ 53 \<le> \<bar>x\<bar> then x
      else sgn x * of_int (round_even (\<bar>x\<bar> / 2 powi ulp_exponent \<bar>x\<bar>)) * 2 powi ulp_exponent \<bar>x\<bar>)"

text \<open>\<open>const ratio = i / steps\<close> and \<open>const nodesToRemove = Math.floor(ratio * n)\<close>.\<close>

definition step_ratio :: "nat \<Rightarrow> real" where
  "step_ratio i = round_double (real i / 20)"

definition nodesToRemove :: "nat \<Rightarrow> nat \<Rightarrow> nat" where
  "nodesToRemove n i = nat \<lfloor>round_double (step_ratio i * real n)\<rfloor>"

definition robustness_point ::
  "NetworkAnalyzer \<Rightarrow> strategy \<Rightarrow> string list \<Rightarrow> nat \<Rightarrow> RobustnessPoint" where
  "robustness_point g strat sortedNodeIds i =
     (let ratio = step_ratio i;
          remainingNodeIds = drop (nodesToRemove (length (nodes g)) i) sortedNodeIds;
          remainingNodes = filter (\<lambda>n. node_id n \<in> set remainingNodeIds) (nodes g);
          remainingEdges =
            filter (\<lambda>e. source e \<in> set remainingNodeIds \<and> target e \<in> set remainingNodeIds)
              (edges g)
      in \<lparr>removalRatio = ratio,
          point_ngc = calculateNGC remainingNodes remainingEdges,
          point_strategy = strat\<rparr>)"

text \<open>
  The random strategy sorts with a comparator that ignores its arguments; what that sort
  returns is the parameter \<open>shuffle\<close>. For the other strategies the comparator subtracts
  metric values, here those of the exact model: two values that are equal here can differ
  in the last place as doubles and then be ordered otherwise. The results about the
  sweep below are proved for every order of removal.
\<close>

definition simulateRobustness ::
  "NetworkAnalyzer \<Rightarrow> strategy \<Rightarrow> (string list \<Rightarrow> string list) \<Rightarrow> error + RobustnessPoint list" where
  "simulateRobustness g strat shuffle =
     (case (if strat = Random then Inr (shuffle (map node_id (nodes g)))
            else (case calculateAllMetrics g of
                    Inl e \<Rightarrow> Inl e
                  | Inr metrics \<Rightarrow> Inr (js_sort (compare_by strat metrics) (map node_id (nodes g))))) of
        Inl e \<Rightarrow> Inl e
      | Inr sortedNodeIds \<Rightarrow> Inr (map (robustness_point g strat sortedNodeIds) [0..<21]))"

subsection \<open>Well-formed graphs and example data\<close>

text \<open>
  The data model: node identifiers are unique, and every edge joins two nodes of the
  node list.
\<close>

definition edges_closed :: "Node list \<Rightarrow> Edge list \<Rightarrow> bool" where
  "edges_closed ns es =
     list_all (\<lambda>e. source e \<in> set (map node_id ns) \<and> target e \<in> set (map node_id ns)) es"

definition well_formed :: "Node list \<Rightarrow> Edge list \<Rightarrow> bool" where
  "well_formed ns es = (distinct (map node_id ns) \<and> edges_closed ns es)"

text \<open>A node with the given id, and an edge of weight 1.\<close>

definition mk_node :: "string \<Rightarrow> Node" where
  "mk_node i = \<lparr>node_id = i, name = [], city = [], lat = 0, lng = 0\<rparr>"

definition mk_edge :: "string \<Rightarrow> string \<Rightarrow> Edge" where
  "mk_edge s t = \<lparr>source = s, target = t, weight = 1\<rparr>"

text \<open>The directed 4-cycle A, B, C, D.\<close>

definition cycle4_nodes :: "Node list" where
  "cycle4_nodes = map mk_node [''A'', ''B'', ''C'', ''D'']"

definition cycle4_edges :: "Edge list" where
  "cycle4_edges =
     [mk_edge ''A'' ''B'', mk_edge ''B'' ''C'', mk_edge ''C'' ''D'', mk_edge ''D'' ''A'']"

definition cycle4 :: NetworkAnalyzer where
  "cycle4 = new_NetworkAnalyzer cycle4_nodes cycle4_edges"

text \<open>Two nodes and no edge; two nodes and one edge; one node and an edge from an unknown id.\<close>

definition two_isolated :: NetworkAnalyzer where
  "two_isolated = new_NetworkAnalyzer [mk_node ''A'', mk_node ''B''] []"

definition one_edge :: NetworkAnalyzer where
  "one_edge = new_NetworkAnalyzer [mk_node ''A'', mk_node ''B''] [mk_edge ''A'' ''B'']"

definition dangling :: NetworkAnalyzer where
  "dangling = new_NetworkAnalyzer [mk_node ''A''] [mk_edge ''X'' ''A'']"

text \<open>One node and an edge to an unknown id.\<close>

definition dangling_target :: NetworkAnalyzer where
  "dangling_target = new_NetworkAnalyzer [mk_node ''A''] [mk_edge ''A'' ''X'']"

text \<open>Two nodes and the same edge twice.\<close>

definition dup_edges :: NetworkAnalyzer where
  "dup_edges =
     new_NetworkAnalyzer [mk_node ''A'', mk_node ''B''] [mk_edge ''A'' ''B'', mk_edge ''A'' ''B'']"

section \<open>Properties of the embedding\<close>

subsection \<open>Maps and sets\<close>

lemma update_fresh: "k \<notin> fst ` set al \<Longrightarrow> AList.update k v al = al @ [(k, v)]"
  by (induction al) auto

lemma fold_update_fresh:
  "distinct (map fst acc @ map node_id ns) \<Longrightarrow>
   fold (\<lambda>n m. AList.update (node_id n) (f n) m) ns acc = acc @ map (\<lambda>n. (node_id n, f n)) ns"
proof (induction ns arbitrary: acc)
  case Nil
  then show ?case by simp
next
  case (Cons n ns)
  from Cons.prems have fresh: "node_id n \<notin> fst ` set acc" by auto
  from Cons.prems have "distinct (map fst (acc @ [(node_id n, f n)]) @ map node_id ns)" by auto
  from Cons.IH[OF this] fresh show ?case by (simp add: update_fresh)
qed

lemma init_map_distinct:
  "distinct (map node_id ns) \<Longrightarrow> init_map ns x = map (\<lambda>n. (node_id n, x)) ns"
  using fold_update_fresh[of "[]" ns "\<lambda>_. x"] by (simp add: init_map_def)

lemma init_sets_distinct:
  "distinct (map node_id ns) \<Longrightarrow> init_sets ns = map (\<lambda>n. (node_id n, [])) ns"
  using fold_update_fresh[of "[]" ns "\<lambda>_. []"] by (simp add: init_sets_def)

lemma map_of_fold_update:
  "map_of (fold (\<lambda>n m. AList.update (node_id n) x m) ns acc) k =
     (if k \<in> node_id ` set ns then Some x else map_of acc k)"
  by (induction ns arbitrary: acc) (auto simp: update_conv')

lemma map_of_init_sets:
  "map_of (init_sets ns) k = (if k \<in> node_id ` set ns then Some [] else None)"
  by (simp add: init_sets_def map_of_fold_update)

lemma map_of_init_map:
  "map_of (init_map ns x) k = (if k \<in> node_id ` set ns then Some x else None)"
  by (simp add: init_map_def map_of_fold_update)

lemma set_fold_set_add: "set (fold set_add xs s) = set s \<union> set xs"
  by (induction xs arbitrary: s) (auto simp: set_add_def)

lemma distinct_fold_set_add: "distinct s \<Longrightarrow> distinct (fold set_add xs s)"
  by (induction xs arbitrary: s) (auto simp: set_add_def)

lemma length_fold_set_add_Nil: "length (fold set_add xs []) = card (set xs)"
  using distinct_card[of "fold set_add xs []"] distinct_fold_set_add[of "[]" xs]
  by (simp add: set_fold_set_add)

lemma keys_opt_add: "map fst (opt_add m k x) = map fst m"
  by (simp add: opt_add_def update_keys map_of_eq_None_iff[symmetric] split: option.splits)

lemma map_of_opt_add:
  "map_of (opt_add m k x) k' =
     (if k' = k then map_option (set_add x) (map_of m k) else map_of m k')"
  by (auto simp: opt_add_def update_conv' split: option.splits)

text \<open>The adjacency sets after the constructor's loop over the edges.\<close>

lemma map_of_fold_opt_add:
  "map_of (fold (\<lambda>e m. opt_add m (kf e) (vf e)) es m) v =
     map_option (fold set_add (map vf (filter (\<lambda>e. kf e = v) es))) (map_of m v)"
proof (induction es arbitrary: m)
  case Nil
  then show ?case by (simp add: option.map_ident)
next
  case (Cons e es)
  show ?case
    by (simp add: Cons.IH map_of_opt_add option.map_comp comp_def)
qed

lemma keys_fold_opt_add:
  "map fst (fold (\<lambda>e m. opt_add m (kf e) (vf e)) es m) = map fst m"
  by (induction es arbitrary: m) (auto simp: keys_opt_add)

lemma fold_add_edge_fields:
  "nodes (fold add_edge es g) = nodes g"
  "edges (fold add_edge es g) = edges g"
  "adj (fold add_edge es g) = fold (\<lambda>e m. opt_add m (source e) (target e)) es (adj g)"
  "revAdj (fold add_edge es g) = fold (\<lambda>e m. opt_add m (target e) (source e)) es (revAdj g)"
  by (induction es arbitrary: g) (auto simp: add_edge_def)

lemma new_nodes [simp]: "nodes (new_NetworkAnalyzer ns es) = ns"
  and new_edges [simp]: "edges (new_NetworkAnalyzer ns es) = es"
  by (simp_all add: new_NetworkAnalyzer_def fold_add_edge_fields)

definition out_targets :: "Edge list \<Rightarrow> string \<Rightarrow> string list" where
  "out_targets es v = fold set_add (map target (filter (\<lambda>e. source e = v) es)) []"

definition in_sources :: "Edge list \<Rightarrow> string \<Rightarrow> string list" where
  "in_sources es v = fold set_add (map source (filter (\<lambda>e. target e = v) es)) []"

lemma map_of_new_adj:
  "map_of (adj (new_NetworkAnalyzer ns es)) v =
     (if v \<in> node_id ` set ns then Some (out_targets es v) else None)"
  by (simp add: new_NetworkAnalyzer_def fold_add_edge_fields map_of_fold_opt_add
      map_of_init_sets out_targets_def)

lemma map_of_new_revAdj:
  "map_of (revAdj (new_NetworkAnalyzer ns es)) v =
     (if v \<in> node_id ` set ns then Some (in_sources es v) else None)"
  by (simp add: new_NetworkAnalyzer_def fold_add_edge_fields map_of_fold_opt_add
      map_of_init_sets in_sources_def)

lemma keys_new_adj:
  "distinct (map node_id ns) \<Longrightarrow> map fst (adj (new_NetworkAnalyzer ns es)) = map node_id ns"
  "distinct (map node_id ns) \<Longrightarrow> map fst (revAdj (new_NetworkAnalyzer ns es)) = map node_id ns"
  by (simp_all add: new_NetworkAnalyzer_def fold_add_edge_fields keys_fold_opt_add
      init_sets_distinct comp_def)

lemma set_out_targets: "set (out_targets es v) = {target e |e. e \<in> set es \<and> source e = v}"
  by (auto simp: out_targets_def set_fold_set_add)

lemma set_in_sources: "set (in_sources es v) = {source e |e. e \<in> set es \<and> target e = v}"
  by (auto simp: in_sources_def set_fold_set_add)

lemma distinct_out_targets: "distinct (out_targets es v)"
  and distinct_in_sources: "distinct (in_sources es v)"
  by (simp_all add: out_targets_def in_sources_def distinct_fold_set_add)

lemma successors_new_adj:
  "successors (adj (new_NetworkAnalyzer ns es)) v =
     (if v \<in> node_id ` set ns then out_targets es v else [])"
  by (simp add: successors_def map_of_new_adj)

lemma successors_new_revAdj:
  "successors (revAdj (new_NetworkAnalyzer ns es)) v =
     (if v \<in> node_id ` set ns then in_sources es v else [])"
  by (simp add: successors_def map_of_new_revAdj)

subsection \<open>Degrees\<close>

text \<open>The ordered pairs joined by some edge.\<close>

definition edge_pairs :: "Edge list \<Rightarrow> (string \<times> string) set" where
  "edge_pairs es = (\<lambda>e. (source e, target e)) ` set es"

lemma well_formedD:
  assumes "well_formed ns es"
  shows "distinct (map node_id ns)"
    and "\<And>e. e \<in> set es \<Longrightarrow> source e \<in> node_id ` set ns"
    and "\<And>e. e \<in> set es \<Longrightarrow> target e \<in> node_id ` set ns"
  using assms by (auto simp: well_formed_def edges_closed_def list_all_iff)

lemma out_degrees_map:
  assumes "distinct (map node_id ns)"
  shows "calculateOutDegrees (new_NetworkAnalyzer ns es) =
           map (\<lambda>n. (node_id n, real (length (out_targets es (node_id n))))) ns"
proof -
  have "calculateOutDegrees (new_NetworkAnalyzer ns es) =
          map (\<lambda>n. (node_id n, size_or_0 (adj (new_NetworkAnalyzer ns es)) (node_id n))) ns"
    using fold_update_fresh[of "[]" ns] assms by (simp add: calculateOutDegrees_def)
  also have "\<dots> = map (\<lambda>n. (node_id n, real (length (out_targets es (node_id n))))) ns"
    by (rule map_cong) (simp_all add: size_or_0_def map_of_new_adj)
  finally show ?thesis .
qed

lemma in_degrees_map:
  assumes "distinct (map node_id ns)"
  shows "calculateInDegrees (new_NetworkAnalyzer ns es) =
           map (\<lambda>n. (node_id n, real (length (in_sources es (node_id n))))) ns"
proof -
  have "calculateInDegrees (new_NetworkAnalyzer ns es) =
          map (\<lambda>n. (node_id n, size_or_0 (revAdj (new_NetworkAnalyzer ns es)) (node_id n))) ns"
    using fold_update_fresh[of "[]" ns] assms by (simp add: calculateInDegrees_def)
  also have "\<dots> = map (\<lambda>n. (node_id n, real (length (in_sources es (node_id n))))) ns"
    by (rule map_cong) (simp_all add: size_or_0_def map_of_new_revAdj)
  finally show ?thesis .
qed

lemma sum_list_ids:
  assumes "distinct (map node_id ns)"
  shows "(\<Sum>n\<leftarrow>ns. f (node_id n)) = (\<Sum>v \<in> node_id ` set ns. f v)"
proof -
  have "(\<Sum>n\<leftarrow>ns. f (node_id n)) = sum_list (map f (map node_id ns))"
    by (simp add: comp_def)
  also have "\<dots> = sum f (set (map node_id ns))"
    using assms by (rule sum_list_distinct_conv_sum_set)
  finally show ?thesis by simp
qed

lemma length_out_targets: "length (out_targets es v) = card {t. (v, t) \<in> edge_pairs es}"
proof -
  have "set (map target (filter (\<lambda>e. source e = v) es)) = {t. (v, t) \<in> edge_pairs es}"
    by (auto simp: edge_pairs_def image_iff)
  then show ?thesis by (simp add: out_targets_def length_fold_set_add_Nil)
qed

lemma length_in_sources: "length (in_sources es v) = card {s. (s, v) \<in> edge_pairs es}"
proof -
  have "set (map source (filter (\<lambda>e. target e = v) es)) = {s. (s, v) \<in> edge_pairs es}"
    by (auto simp: edge_pairs_def image_iff)
  then show ?thesis by (simp add: in_sources_def length_fold_set_add_Nil)
qed

lemma finite_edge_pairs: "finite (edge_pairs es)"
  by (simp add: edge_pairs_def)

lemma card_out_split:
  assumes "finite V" and "fst ` P \<subseteq> V" and "finite P"
  shows "(\<Sum>v \<in> V. card {t. (v, t) \<in> P}) = card P"
proof -
  have "(\<Sum>v \<in> V. card {t. (v, t) \<in> P}) = card (SIGMA v:V. {t. (v, t) \<in> P})"
  proof (rule card_SigmaI[symmetric])
    show "finite V" by fact
    show "\<forall>a\<in>V. finite {t. (a, t) \<in> P}"
    proof
      fix a
      have "{t. (a, t) \<in> P} \<subseteq> snd ` P" by force
      then show "finite {t. (a, t) \<in> P}" using assms(3) by (meson finite_imageI finite_subset)
    qed
  qed
  also have "(SIGMA v:V. {t. (v, t) \<in> P}) = P"
    using assms(2) by force
  finally show ?thesis .
qed

lemma card_in_split:
  assumes "finite V" and "snd ` P \<subseteq> V" and "finite P"
  shows "(\<Sum>v \<in> V. card {s. (s, v) \<in> P}) = card P"
proof -
  have "(\<Sum>v \<in> V. card {s. (s, v) \<in> prod.swap -` (prod.swap ` P)}) = card (prod.swap ` P)"
    using card_out_split[of V "prod.swap ` P"] assms by (simp add: image_image)
  moreover have "card (prod.swap ` P) = card P"
    by (simp add: card_image)
  ultimately show ?thesis by simp
qed

subsection \<open>PageRank conserves mass\<close>

lemma sum_list_alist:
  assumes "distinct (map fst al)"
  shows "sum_list (map snd al) = (\<Sum>k \<in> fst ` set al. get_bang al k)"
proof -
  have "sum_list (map snd al) = sum_list (map (get_bang al) (map fst al))"
    using assms by (auto simp: get_bang_def intro!: arg_cong[where f=sum_list])
  also have "\<dots> = sum (get_bang al) (set (map fst al))"
    using assms by (rule sum_list_distinct_conv_sum_set)
  finally show ?thesis by simp
qed

lemma pr_contrib_fold:
  assumes "\<forall>p \<in> set ps. map_of (adj g) p \<noteq> None"
  shows "fold (pr_contrib g pr) ps (Inr a) =
           Inr (a + (\<Sum>p\<leftarrow>ps. get_bang pr p / real (length (successors (adj g) p))))"
  using assms
proof (induction ps arbitrary: a)
  case Nil
  then show ?case by simp
next
  case (Cons p ps)
  then obtain s where s: "map_of (adj g) p = Some s" by auto
  have "pr_contrib g pr p (Inr a) = Inr (a + get_bang pr p / real (length s))"
    by (simp add: pr_contrib_def s)
  with Cons s show ?case by (simp add: successors_def add.assoc)
qed

definition pr_value :: "NetworkAnalyzer \<Rightarrow> real \<Rightarrow> real jsmap \<Rightarrow> string \<Rightarrow> real" where
  "pr_value g alpha pr v =
     (1 - alpha) / real (length (nodes g))
       + alpha * ((\<Sum>p\<leftarrow>successors (revAdj g) v.
                     get_bang pr p / real (length (successors (adj g) p)))
                  + fold (pr_sink g pr) (nodes g) 0 / real (length (nodes g)))"

lemma pr_node_fold:
  assumes "\<forall>n \<in> set ms. \<forall>p \<in> set (successors (revAdj g) (node_id n)). map_of (adj g) p \<noteq> None"
  shows "fold (pr_node g alpha pr (fold (pr_sink g pr) (nodes g) 0)) ms (Inr acc) =
           Inr (fold (\<lambda>n m. AList.update (node_id n) (pr_value g alpha pr (node_id n)) m) ms acc)"
  using assms
proof (induction ms arbitrary: acc)
  case Nil
  then show ?case by simp
next
  case (Cons n ms)
  have "\<forall>p \<in> set (successors (revAdj g) (node_id n)). map_of (adj g) p \<noteq> None"
    using Cons.prems by simp
  from pr_contrib_fold[OF this, of pr 0]
  have "pr_node g alpha pr (fold (pr_sink g pr) (nodes g) 0) n (Inr acc) =
          Inr (AList.update (node_id n) (pr_value g alpha pr (node_id n)) acc)"
    by (simp add: pr_node_def pr_value_def)
  with Cons show ?case by simp
qed

lemma preds_known:
  assumes "well_formed ns es"
  shows "\<forall>p \<in> set (successors (revAdj (new_NetworkAnalyzer ns es)) v).
           map_of (adj (new_NetworkAnalyzer ns es)) p \<noteq> None"
  using well_formedD(2)[OF assms]
  by (auto simp: successors_new_revAdj map_of_new_adj set_in_sources)

lemma pr_iteration_wf:
  assumes "well_formed ns es"
  shows "pr_iteration (new_NetworkAnalyzer ns es) alpha pr =
           Inr (map (\<lambda>n. (node_id n, pr_value (new_NetworkAnalyzer ns es) alpha pr (node_id n))) ns)"
proof -
  let ?g = "new_NetworkAnalyzer ns es"
  have "pr_iteration ?g alpha pr =
          Inr (fold (\<lambda>n m. AList.update (node_id n) (pr_value ?g alpha pr (node_id n)) m) ns [])"
    using pr_node_fold[of ns ?g alpha pr "[]"] preds_known[OF assms]
    by (simp add: pr_iteration_def)
  also have "fold (\<lambda>n m. AList.update (node_id n) (pr_value ?g alpha pr (node_id n)) m) ns [] =
          map (\<lambda>n. (node_id n, pr_value ?g alpha pr (node_id n))) ns"
    using fold_update_fresh[of "[]" ns] well_formedD(1)[OF assms] by simp
  finally show ?thesis .
qed

lemma pr_sink_fold:
  "fold (pr_sink g pr) ms a =
     a + (\<Sum>n\<leftarrow>ms. if length (get_bang (adj g) (node_id n)) = 0 then get_bang pr (node_id n) else 0)"
  by (induction ms arbitrary: a) (auto simp: pr_sink_def)

lemma sum_teleport:
  fixes f :: "'a \<Rightarrow> real"
  assumes "card V = N" and "N \<noteq> 0"
  shows "(\<Sum>v \<in> V. a / real N + alpha * (f v + s / real N)) = a + alpha * (sum f V + s)"
proof -
  have "(\<Sum>v \<in> V. a / real N + alpha * (f v + s / real N))
          = (\<Sum>v \<in> V. a / real N) + alpha * ((\<Sum>v \<in> V. f v) + (\<Sum>v \<in> V. s / real N))"
    unfolding sum.distrib sum_distrib_left[symmetric] ..
  also have "(\<Sum>v \<in> V. a / real N) = a" using assms by simp
  also have "(\<Sum>v \<in> V. s / real N) = s" using assms by simp
  finally show ?thesis .
qed

lemma pr_mass:
  assumes wf: "well_formed ns es" and ne: "ns \<noteq> []"
  shows "(\<Sum>n\<leftarrow>ns. pr_value (new_NetworkAnalyzer ns es) alpha pr (node_id n)) =
           (1 - alpha) + alpha * (\<Sum>v \<in> node_id ` set ns. get_bang pr v)"
proof -
  let ?g = "new_NetworkAnalyzer ns es"
  let ?V = "node_id ` set ns"
  let ?P = "edge_pairs es"
  let ?N = "real (length ns)"
  let ?k = "\<lambda>p. card {v. (p, v) \<in> ?P}"
  let ?c = "\<lambda>p. get_bang pr p / real (?k p)"
  note d = well_formedD(1)[OF wf]
  have PV: "?P \<subseteq> ?V \<times> ?V"
    using well_formedD(2,3)[OF wf] by (auto simp: edge_pairs_def)
  have cardV: "card ?V = length ns"
    using distinct_card[OF d] by simp
  have N0: "?N \<noteq> 0" using ne by simp
  have finP: "\<And>p. finite {v. (p, v) \<in> ?P}"
  proof -
    fix p
    have "{v. (p, v) \<in> ?P} \<subseteq> snd ` ?P" by force
    then show "finite {v. (p, v) \<in> ?P}"
      by (meson finite_edge_pairs finite_imageI finite_subset)
  qed
  have len: "\<And>p. p \<in> ?V \<Longrightarrow> length (successors (adj ?g) p) = ?k p"
    by (simp add: successors_new_adj length_out_targets)
  have len': "\<And>p. p \<in> ?V \<Longrightarrow> length (get_bang (adj ?g) p) = ?k p"
    by (simp add: get_bang_def map_of_new_adj length_out_targets)
  have inflow: "(\<Sum>p\<leftarrow>successors (revAdj ?g) v.
                   get_bang pr p / real (length (successors (adj ?g) p)))
                = (\<Sum>p | p \<in> ?V \<and> (p, v) \<in> ?P. ?c p)" if v: "v \<in> ?V" for v
  proof -
    have set_eq: "set (in_sources es v) = {p. p \<in> ?V \<and> (p, v) \<in> ?P}"
      using PV by (auto simp: set_in_sources edge_pairs_def image_iff)
    have "(\<Sum>p\<leftarrow>successors (revAdj ?g) v.
                   get_bang pr p / real (length (successors (adj ?g) p)))
          = (\<Sum>p\<leftarrow>in_sources es v. get_bang pr p / real (length (successors (adj ?g) p)))"
      using v by (simp add: successors_new_revAdj)
    also have "\<dots> = (\<Sum>p \<in> set (in_sources es v).
                         get_bang pr p / real (length (successors (adj ?g) p)))"
      by (rule sum_list_distinct_conv_sum_set[OF distinct_in_sources])
    also have "\<dots> = (\<Sum>p \<in> set (in_sources es v). ?c p)"
      by (rule sum.cong) (auto simp: set_eq len)
    finally show ?thesis by (simp add: set_eq)
  qed
  have swap: "(\<Sum>v \<in> ?V. \<Sum>p | p \<in> ?V \<and> (p, v) \<in> ?P. ?c p)
                = (\<Sum>p \<in> ?V. \<Sum>v | v \<in> ?V \<and> (p, v) \<in> ?P. ?c p)"
    by (rule sum.swap_restrict) simp_all
  have inner: "(\<Sum>v | v \<in> ?V \<and> (p, v) \<in> ?P. ?c p)
                = (if ?k p = 0 then 0 else get_bang pr p)" for p
  proof -
    have "{v. v \<in> ?V \<and> (p, v) \<in> ?P} = {v. (p, v) \<in> ?P}" using PV by auto
    then show ?thesis by simp
  qed
  have sink: "fold (pr_sink ?g pr) ns 0
                = (\<Sum>p \<in> ?V. if ?k p = 0 then get_bang pr p else 0)"
  proof -
    have "fold (pr_sink ?g pr) ns 0
            = (\<Sum>n\<leftarrow>ns. if length (get_bang (adj ?g) (node_id n)) = 0
                          then get_bang pr (node_id n) else 0)"
      by (simp add: pr_sink_fold)
    also have "\<dots> = (\<Sum>p \<in> ?V. if length (get_bang (adj ?g) p) = 0 then get_bang pr p else 0)"
      by (rule sum_list_ids[OF d])
    also have "\<dots> = (\<Sum>p \<in> ?V. if ?k p = 0 then get_bang pr p else 0)"
      by (rule sum.cong) (simp_all add: len')
    finally show ?thesis .
  qed
  have "(\<Sum>n\<leftarrow>ns. pr_value ?g alpha pr (node_id n)) = (\<Sum>v \<in> ?V. pr_value ?g alpha pr v)"
    by (rule sum_list_ids[OF d])
  also have "\<dots> = (\<Sum>v \<in> ?V. (1 - alpha) / ?N
                  + alpha * ((\<Sum>p | p \<in> ?V \<and> (p, v) \<in> ?P. ?c p)
                             + (\<Sum>p \<in> ?V. if ?k p = 0 then get_bang pr p else 0) / ?N))"
    by (rule sum.cong) (simp_all add: pr_value_def inflow sink)
  also have "\<dots> = (1 - alpha)
                  + alpha * ((\<Sum>v \<in> ?V. \<Sum>p | p \<in> ?V \<and> (p, v) \<in> ?P. ?c p)
                             + (\<Sum>p \<in> ?V. if ?k p = 0 then get_bang pr p else 0))"
    using ne by (intro sum_teleport cardV) simp
  also have "(\<Sum>v \<in> ?V. \<Sum>p | p \<in> ?V \<and> (p, v) \<in> ?P. ?c p)
               = (\<Sum>p \<in> ?V. if ?k p = 0 then 0 else get_bang pr p)"
    unfolding swap by (rule sum.cong) (simp_all only: inner)
  also have "(\<Sum>p \<in> ?V. if ?k p = 0 then 0 else get_bang pr p)
               + (\<Sum>p \<in> ?V. if ?k p = 0 then get_bang pr p else 0)
             = (\<Sum>p \<in> ?V. get_bang pr p)"
    unfolding sum.distrib[symmetric] by (rule sum.cong) auto
  finally show ?thesis .
qed

lemma pr_iteration_invariant:
  assumes wf: "well_formed ns es" and ne: "ns \<noteq> []"
    and keys: "map fst pr = map node_id ns" and one: "sum_list (map snd pr) = 1"
  shows "\<exists>pr'. pr_iteration (new_NetworkAnalyzer ns es) alpha pr = Inr pr' \<and>
           map fst pr' = map node_id ns \<and> sum_list (map snd pr') = 1"
proof -
  let ?g = "new_NetworkAnalyzer ns es"
  let ?pr' = "map (\<lambda>n. (node_id n, pr_value ?g alpha pr (node_id n))) ns"
  have d: "distinct (map fst pr)" using keys well_formedD(1)[OF wf] by simp
  have "fst ` set pr = node_id ` set ns"
    using arg_cong[OF keys, of set] by simp
  with sum_list_alist[OF d] one have "(\<Sum>v \<in> node_id ` set ns. get_bang pr v) = 1" by simp
  with pr_mass[OF wf ne, of alpha pr] have "sum_list (map snd ?pr') = 1"
    by (simp add: comp_def)
  moreover have "map fst ?pr' = map node_id ns" by (simp add: comp_def)
  ultimately show ?thesis using pr_iteration_wf[OF wf] by blast
qed

lemma pr_loop_invariant:
  assumes wf: "well_formed ns es" and ne: "ns \<noteq> []"
    and keys: "map fst pr = map node_id ns" and one: "sum_list (map snd pr) = 1"
  shows "\<exists>pr'. pr_loop k (new_NetworkAnalyzer ns es) alpha pr = Inr pr' \<and>
           map fst pr' = map node_id ns \<and> sum_list (map snd pr') = 1"
  using keys one
proof (induction k arbitrary: pr)
  case 0
  then show ?case by simp
next
  case (Suc k)
  from pr_iteration_invariant[OF wf ne Suc.prems] obtain pr1 where
    1: "pr_iteration (new_NetworkAnalyzer ns es) alpha pr = Inr pr1"
    and 2: "map fst pr1 = map node_id ns" and 3: "sum_list (map snd pr1) = 1"
    by blast
  from Suc.IH[OF 2 3] 1 show ?case by simp
qed

lemma pr_init_invariant:
  assumes d: "distinct (map node_id ns)" and ne: "ns \<noteq> []"
  shows "map fst (init_map ns (1 / real (length ns))) = map node_id ns"
    and "sum_list (map snd (init_map ns (1 / real (length ns)))) = 1"
proof -
  show "map fst (init_map ns (1 / real (length ns))) = map node_id ns"
    by (simp add: init_map_distinct[OF d] comp_def)
  have "sum_list (map snd (init_map ns (1 / real (length ns))))
          = (\<Sum>n\<leftarrow>ns. 1 / real (length ns))"
    by (simp add: init_map_distinct[OF d] comp_def)
  also have "\<dots> = real (length ns) * (1 / real (length ns))"
    by (simp add: sum_list_triv)
  also have "\<dots> = 1" using ne by simp
  finally show "sum_list (map snd (init_map ns (1 / real (length ns)))) = 1" .
qed

subsection \<open>Rounding to a double\<close>

lemma round_even_bounds: "of_int (round_even y) \<le> y + 1 / 2" "y - 1 / 2 \<le> of_int (round_even y)"
  unfolding round_even_def Let_def by (auto; linarith)+

lemma round_even_int [simp]: "round_even (of_int k) = k"
  by (simp add: round_even_def)

lemma round_even_floor: "\<lfloor>y\<rfloor> \<le> round_even y" "round_even y \<le> \<lfloor>y\<rfloor> + 1"
  by (simp_all add: round_even_def Let_def)

lemma round_even_mono:
  assumes "a \<le> b"
  shows "round_even a \<le> round_even b"
proof (cases "\<lfloor>a\<rfloor> = \<lfloor>b\<rfloor>")
  case True
  then show ?thesis
    using assms by (auto simp: round_even_def Let_def)
next
  case False
  with assms have "\<lfloor>a\<rfloor> < \<lfloor>b\<rfloor>"
    using floor_mono[OF assms] by simp
  then have "round_even a \<le> \<lfloor>b\<rfloor>"
    using round_even_floor(2)[of a] by simp
  with round_even_floor(1)[of b] show ?thesis by simp
qed

lemma exponent_bounds:
  assumes "0 < x"
  shows "2 powi exponent x \<le> x" and "x < 2 powi (exponent x + 1)"
proof -
  have "2 powi exponent x \<le> x \<and> x < 2 powi (exponent x + 1)"
  proof (cases "1 \<le> x")
    case True
    let ?n = "\<lfloor>x\<rfloor>"
    from True have n: "0 < ?n" by simp
    from bitlen_bounds[OF n] have lo: "2 ^ nat (bitlen ?n - 1) \<le> ?n" and hi: "?n < 2 ^ nat (bitlen ?n)"
      by simp_all
    have b1: "1 \<le> bitlen ?n"
      using n by (simp add: bitlen_alt_def)
    have e: "exponent x = bitlen ?n - 1"
      using True by (simp add: exponent_def)
    have "2 powi (bitlen ?n - 1) = (2 :: real) ^ nat (bitlen ?n - 1)"
      using b1 by (simp add: power_int_def)
    moreover have "(2 :: real) ^ nat (bitlen ?n - 1) \<le> real_of_int ?n"
      using lo of_int_le_iff[of "2 ^ nat (bitlen ?n - 1)" ?n, where ?'a = real] by simp
    moreover have "real_of_int ?n \<le> x" by simp
    ultimately have l: "2 powi exponent x \<le> x"
      unfolding e by linarith
    have "?n + 1 \<le> 2 ^ nat (bitlen ?n)" using hi by simp
    then have "real_of_int (?n + 1) \<le> (2 :: real) ^ nat (bitlen ?n)"
      using of_int_le_iff[of "?n + 1" "2 ^ nat (bitlen ?n)", where ?'a = real] by simp
    moreover have "x < real_of_int ?n + 1" by linarith
    moreover have "2 powi (bitlen ?n) = (2 :: real) ^ nat (bitlen ?n)"
      using b1 by (simp add: power_int_def)
    ultimately have "x < 2 powi (exponent x + 1)"
      unfolding e by simp linarith
    with l show ?thesis by simp
  next
    case False
    let ?m = "\<lceil>1 / x\<rceil>"
    let ?k = "bitlen (?m - 1)"
    from False assms have inv: "1 < 1 / x" by simp
    then have m2: "2 \<le> ?m" by (simp add: le_ceiling_iff)
    then have pos: "0 < ?m - 1" by simp
    from bitlen_bounds[OF pos] have lo: "2 ^ nat (?k - 1) \<le> ?m - 1" and hi: "?m - 1 < 2 ^ nat ?k"
      by simp_all
    have k1: "1 \<le> ?k"
      using pos by (simp add: bitlen_alt_def)
    have e: "exponent x = - ?k"
      using False by (simp add: exponent_def)
    have "?m \<le> 2 ^ nat ?k" using hi by simp
    then have "real_of_int ?m \<le> (2 :: real) ^ nat ?k"
      using of_int_le_iff[of ?m "2 ^ nat ?k", where ?'a = real] by simp
    moreover have "1 / x \<le> real_of_int ?m" by simp
    ultimately have "1 / x \<le> 2 ^ nat ?k" by linarith
    then have "1 \<le> 2 ^ nat ?k * x"
      using assms by (simp add: field_simps)
    then have "1 / 2 ^ nat ?k \<le> x"
      by (simp add: field_simps)
    moreover have "2 powi (- ?k) = 1 / (2 :: real) ^ nat ?k"
      using k1 by (simp add: power_int_def field_simps)
    ultimately have l: "2 powi exponent x \<le> x"
      by (simp add: e)
    have "(2 :: real) ^ nat (?k - 1) \<le> real_of_int (?m - 1)"
      using lo of_int_le_iff[of "2 ^ nat (?k - 1)" "?m - 1", where ?'a = real] by simp
    moreover have "real_of_int (?m - 1) < 1 / x"
      by simp linarith
    ultimately have "2 ^ nat (?k - 1) < 1 / x" by linarith
    then have "2 ^ nat (?k - 1) * x < 1"
      using assms by (simp add: field_simps)
    then have "x < 1 / 2 ^ nat (?k - 1)"
      by (simp add: field_simps)
    moreover have "2 powi (- ?k + 1) = 1 / (2 :: real) ^ nat (?k - 1)"
    proof -
      have "- ?k + 1 = - int (nat (?k - 1))" using k1 by simp
      then have "2 powi (- ?k + 1) = (2 :: real) powi (- int (nat (?k - 1)))" by simp
      also have "\<dots> = 1 / 2 ^ nat (?k - 1)"
        by (simp only: power_int_minus power_int_of_nat) (simp add: field_simps)
      finally show ?thesis .
    qed
    ultimately have "x < 2 powi (exponent x + 1)"
      by (simp add: e)
    with l show ?thesis by simp
  qed
  then show "2 powi exponent x \<le> x" and "x < 2 powi (exponent x + 1)" by simp_all
qed

lemma exponent_mono:
  assumes "0 < x" and "x \<le> y"
  shows "exponent x \<le> exponent y"
proof -
  from assms have y: "0 < y" by simp
  have "(2 :: real) powi exponent x < 2 powi (exponent y + 1)"
    using exponent_bounds(1)[OF assms(1)] exponent_bounds(2)[OF y] assms(2) by linarith
  then have "\<not> exponent y + 1 \<le> exponent x"
    using power_int_increasing[of "exponent y + 1" "exponent x" "2 :: real"] by auto
  then show ?thesis by simp
qed

lemma round_double_pos:
  assumes "0 < x" and "x < 2 ^ 53"
  shows "round_double x = of_int (round_even (x / 2 powi ulp_exponent x)) * 2 powi ulp_exponent x"
  using assms by (simp add: round_double_def)

lemma round_double_upper:
  assumes "0 < x" and "x < 2 ^ 53"
  shows "round_double x \<le> 2 powi (ulp_exponent x + 53)"
proof -
  let ?u = "(2 :: real) powi ulp_exponent x"
  have u: "0 < ?u" by simp
  have "exponent x + 1 \<le> ulp_exponent x + 53" by (simp add: ulp_exponent_def)
  then have "(2 :: real) powi (exponent x + 1) \<le> 2 powi (ulp_exponent x + 53)"
    by (intro power_int_increasing) simp_all
  with exponent_bounds(2)[OF assms(1)] have "x \<le> 2 powi (ulp_exponent x + 53)" by linarith
  also have "\<dots> = 2 ^ 53 * ?u"
    by (simp add: power_int_add)
  finally have "x / ?u \<le> of_int (2 ^ 53)"
    using u by (simp add: field_simps)
  from round_even_mono[OF this] have "round_even (x / ?u) \<le> 2 ^ 53"
    by (simp only: round_even_int)
  then have "real_of_int (round_even (x / ?u)) \<le> 2 ^ 53"
    using of_int_le_iff[of "round_even (x / ?u)" "2 ^ 53", where ?'a = real] by simp
  then have "real_of_int (round_even (x / ?u)) * ?u \<le> 2 ^ 53 * ?u"
    using u by (simp only: mult_le_cancel_right_pos)
  then show ?thesis
    by (simp add: round_double_pos[OF assms] power_int_add)
qed

lemma round_double_lower:
  assumes "0 < x" and "x < 2 ^ 53" and "- 1022 \<le> exponent x"
  shows "2 powi (ulp_exponent x + 52) \<le> round_double x"
proof -
  let ?u = "(2 :: real) powi ulp_exponent x"
  have u: "0 < ?u" by simp
  have e: "ulp_exponent x + 52 = exponent x"
    using assms(3) by (simp add: ulp_exponent_def)
  have "2 ^ 52 * ?u = 2 powi (ulp_exponent x + 52)"
    by (simp add: power_int_add)
  also have "\<dots> \<le> x"
    using exponent_bounds(1)[OF assms(1)] by (simp only: e)
  finally have "of_int (2 ^ 52) \<le> x / ?u"
    using u by (simp add: field_simps)
  from round_even_mono[OF this] have "2 ^ 52 \<le> round_even (x / ?u)"
    by (simp only: round_even_int)
  then have "2 ^ 52 \<le> real_of_int (round_even (x / ?u))"
    using of_int_le_iff[of "2 ^ 52" "round_even (x / ?u)", where ?'a = real] by simp
  then have "2 ^ 52 * ?u \<le> real_of_int (round_even (x / ?u)) * ?u"
    using u by (simp only: mult_le_cancel_right_pos)
  then show ?thesis
    by (simp add: round_double_pos[OF assms(1,2)] power_int_add)
qed

lemma round_double_nonneg:
  assumes "0 \<le> x"
  shows "0 \<le> round_double x"
proof (cases "x = 0 \<or> 2 ^ 53 \<le> x")
  case True
  with assms show ?thesis by (auto simp: round_double_def)
next
  case False
  with assms have x: "0 < x" "x < 2 ^ 53" by simp_all
  have "0 \<le> x / 2 powi ulp_exponent x" using x by simp
  from round_even_mono[OF this] have "0 \<le> round_even (x / 2 powi ulp_exponent x)"
    using round_even_int[of 0] by simp
  then show ?thesis
    by (simp add: round_double_pos[OF x])
qed

lemma round_double_mono:
  assumes "0 \<le> x" and "x \<le> y"
  shows "round_double x \<le> round_double y"
proof -
  from assms have y0: "0 \<le> y" by simp
  consider "x = 0" | "2 ^ 53 \<le> x" | "0 < x" "x < 2 ^ 53" "2 ^ 53 \<le> y"
    | "0 < x" "y < 2 ^ 53"
    using assms by linarith
  then show ?thesis
  proof cases
    case 1
    then show ?thesis using round_double_nonneg[OF y0] by (simp add: round_double_def)
  next
    case 2
    with assms show ?thesis by (simp add: round_double_def)
  next
    case 3
    have "exponent x < 53"
    proof (rule ccontr)
      assume "\<not> exponent x < 53"
      then have "(2 :: real) powi 53 \<le> 2 powi exponent x"
        by (intro power_int_increasing) simp_all
      with exponent_bounds(1)[OF 3(1)] 3(2) show False by simp
    qed
    then have "ulp_exponent x + 53 \<le> 53" by (simp add: ulp_exponent_def)
    then have "(2 :: real) powi (ulp_exponent x + 53) \<le> 2 powi 53"
      by (intro power_int_increasing) simp_all
    with round_double_upper[OF 3(1,2)] have "round_double x \<le> 2 ^ 53" by simp
    also have "\<dots> \<le> round_double y" using 3(3) by (simp add: round_double_def)
    finally show ?thesis .
  next
    case 4
    with assms have x: "0 < x" "x < 2 ^ 53" and y: "0 < y" "y < 2 ^ 53" by simp_all
    have le: "ulp_exponent x \<le> ulp_exponent y"
      using exponent_mono[OF x(1) assms(2)] by (simp add: ulp_exponent_def)
    show ?thesis
    proof (cases "ulp_exponent x = ulp_exponent y")
      case True
      let ?u = "(2 :: real) powi ulp_exponent y"
      have u: "0 < ?u" by simp
      have "x / ?u \<le> y / ?u" using assms(2) u by (simp add: divide_right_mono)
      from round_even_mono[OF this]
      have "real_of_int (round_even (x / ?u)) \<le> real_of_int (round_even (y / ?u))"
        by (simp only: of_int_le_iff)
      then have "real_of_int (round_even (x / ?u)) * ?u \<le> real_of_int (round_even (y / ?u)) * ?u"
        using u by (simp only: mult_le_cancel_right_pos)
      then show ?thesis
        by (simp add: round_double_pos[OF x] round_double_pos[OF y] True)
    next
      case False
      with le have lt: "ulp_exponent x + 53 \<le> ulp_exponent y + 52" by simp
      have "- 1022 \<le> exponent y"
      proof (rule ccontr)
        assume "\<not> - 1022 \<le> exponent y"
        then have "ulp_exponent y = - 1074" by (simp add: ulp_exponent_def)
        moreover have "- 1074 \<le> ulp_exponent x" by (simp add: ulp_exponent_def)
        ultimately show False using le False by simp
      qed
      from round_double_lower[OF y this] have "2 powi (ulp_exponent y + 52) \<le> round_double y" .
      moreover have "(2 :: real) powi (ulp_exponent x + 53) \<le> 2 powi (ulp_exponent y + 52)"
        using lt by (intro power_int_increasing) simp_all
      ultimately show ?thesis using round_double_upper[OF x] by linarith
    qed
  qed
qed

lemma round_double_nat [simp]: "round_double (real n) = real n"
proof (cases "n = 0 \<or> 2 ^ 53 \<le> real n")
  case True
  then show ?thesis by (auto simp: round_double_def)
next
  case False
  then have x: "0 < real n" "real n < 2 ^ 53" by simp_all
  have "exponent (real n) < 53"
  proof (rule ccontr)
    assume "\<not> exponent (real n) < 53"
    then have "(2 :: real) powi 53 \<le> 2 powi exponent (real n)"
      by (intro power_int_increasing) simp_all
    with exponent_bounds(1)[OF x(1)] x(2) show False by simp
  qed
  then have "ulp_exponent (real n) \<le> 0" by (simp add: ulp_exponent_def)
  then obtain k where k: "ulp_exponent (real n) = - int k"
    by (metis neg_le_0_iff_le nonneg_int_cases minus_minus)
  have u: "(2 :: real) powi ulp_exponent (real n) = 1 / 2 ^ k"
    by (simp add: k power_int_minus field_simps)
  have "real n / (1 / 2 ^ k) = of_int (int n * 2 ^ k)" by simp
  then have "round_even (real n / (1 / 2 ^ k)) = int n * 2 ^ k"
    by (simp only: round_even_int)
  then show ?thesis
    by (simp add: round_double_pos[OF x] u)
qed

lemma round_double_0 [simp]: "round_double 0 = 0"
  by (simp add: round_double_def)

lemma round_double_1 [simp]: "round_double 1 = 1"
  using round_double_nat[of 1] by simp

lemma step_ratio_0 [simp]: "step_ratio 0 = 0"
  and step_ratio_20 [simp]: "step_ratio 20 = 1"
  by (simp_all add: step_ratio_def)

lemma step_ratio_mono: "i \<le> j \<Longrightarrow> step_ratio i \<le> step_ratio j"
  unfolding step_ratio_def by (intro round_double_mono) (simp_all add: divide_right_mono)

lemma step_ratio_nonneg: "0 \<le> step_ratio i"
  unfolding step_ratio_def by (intro round_double_nonneg) simp

lemma nodesToRemove_mono: "i \<le> j \<Longrightarrow> nodesToRemove n i \<le> nodesToRemove n j"
  unfolding nodesToRemove_def
  by (intro nat_mono floor_mono round_double_mono mult_right_mono mult_nonneg_nonneg
      step_ratio_mono step_ratio_nonneg) simp_all

lemma nodesToRemove_0 [simp]: "nodesToRemove n 0 = 0"
  and nodesToRemove_20 [simp]: "nodesToRemove n 20 = n"
  by (simp_all add: nodesToRemove_def)

text \<open>
  The rounding is visible: at 90 nodes step 14 removes 62 nodes, one less than the exact
  product 63.
\<close>

lemma nodesToRemove_90_14: "nodesToRemove 90 14 = 62 \<and> nat \<lfloor>real 14 / 20 * real 90\<rfloor> = 63"
  by code_simp

subsection \<open>The robustness sweep\<close>

lemma length_insert_sorted: "length (insert_sorted cmp x ys) = Suc (length ys)"
  by (induction ys) auto

lemma length_js_sort: "length (js_sort cmp xs) = length xs"
  by (induction xs) (auto simp: js_sort_def length_insert_sorted)

lemma robustness_point_last:
  assumes "length sortedNodeIds = length (nodes g)"
  shows "robustness_point g strat sortedNodeIds 20 =
           \<lparr>removalRatio = 1, point_ngc = 0, point_strategy = strat\<rparr>"
  using assms by (simp add: robustness_point_def calculateNGC_def)

lemma upt_21: "[0..<21] = [0..<20] @ [20]"
  by (simp add: upt_rec numeral_eq_Suc)

lemma pr_loop_fixed: "pr_iteration g alpha pr = Inr pr \<Longrightarrow> pr_loop k g alpha pr = Inr pr"
  by (induction k) auto

lemma two_isolated_pageRank:
  "calculatePageRank two_isolated (85 / 100) 50 = Inr [(''A'', 1 / 2), (''B'', 1 / 2)]"
proof -
  have i: "init_map (nodes two_isolated) (1 / real (length (nodes two_isolated)))
             = [(''A'', 1 / 2), (''B'', 1 / 2)]"
    by code_simp
  have "pr_iteration two_isolated (85 / 100) [(''A'', 1 / 2), (''B'', 1 / 2)]
          = Inr [(''A'', 1 / 2), (''B'', 1 / 2)]"
    by code_simp
  then show ?thesis
    unfolding calculatePageRank_def i by (rule pr_loop_fixed)
qed

lemma two_isolated_degrees:
  "calculateInDegrees two_isolated = [(''A'', 0), (''B'', 0)]"
  "calculateOutDegrees two_isolated = [(''A'', 0), (''B'', 0)]"
  "nodes two_isolated = [mk_node ''A'', mk_node ''B'']"
  by code_simp+

lemma two_isolated_sorted:
  "\<exists>metrics. calculateAllMetrics two_isolated = Inr metrics \<and>
     js_sort (compare_by Degree metrics) (map node_id (nodes two_isolated)) = [''A'', ''B'']"
  unfolding calculateAllMetrics_def Let_def two_isolated_pageRank two_isolated_degrees
  by (simp add: js_sort_def compare_by_def get_bang_def get_or_0_def mk_node_def)

lemma nodesToRemove_2:
  "nodesToRemove 2 i = (if i < 10 then 0 else if i < 20 then 1 else if i = 20 then 2 else nodesToRemove 2 i)"
proof -
  have n9: "nodesToRemove 2 9 = 0" by code_simp
  have n10: "nodesToRemove 2 10 = 1" by code_simp
  have n19: "nodesToRemove 2 19 = 1" by code_simp
  have "nodesToRemove 2 i = 0" if "i < 10"
    using nodesToRemove_mono[of i 9 2] that n9 by simp
  moreover have "nodesToRemove 2 i = 1" if "10 \<le> i" "i < 20"
    using nodesToRemove_mono[of 10 i 2] nodesToRemove_mono[of i 19 2] that n10 n19 by simp
  ultimately show ?thesis by auto
qed

lemma two_isolated_point:
  "point_ngc (robustness_point two_isolated Degree [''A'', ''B''] i) =
     (if nodesToRemove 2 i = 0 then 1 / 2 else if nodesToRemove 2 i = 1 then 1 else 0)"
proof -
  have n: "nodes two_isolated = [mk_node ''A'', mk_node ''B'']" and e: "edges two_isolated = []"
    by code_simp+
  have c0: "calculateNGC [mk_node ''A'', mk_node ''B''] [] = 1 / 2"
    and c1: "calculateNGC [mk_node ''B''] [] = 1"
    and c2: "calculateNGC [] [] = 0"
    by code_simp+
  have "length (nodes two_isolated) = 2" by (simp add: n)
  then have l: "nodesToRemove (length (nodes two_isolated)) i = nodesToRemove 2 i"
    by (simp only:)
  have p: "point_ngc (robustness_point two_isolated Degree [''A'', ''B''] i) =
             calculateNGC
               (filter (\<lambda>n. node_id n \<in> set (drop (nodesToRemove 2 i) [''A'', ''B'']))
                  [mk_node ''A'', mk_node ''B'']) []"
    unfolding robustness_point_def Let_def l by (simp add: n e)
  consider "nodesToRemove 2 i = 0" | "nodesToRemove 2 i = 1" | "2 \<le> nodesToRemove 2 i"
    by linarith
  then show ?thesis
  proof cases
    case 1
    then show ?thesis unfolding p by (simp add: c0) (simp add: mk_node_def)
  next
    case 2
    then show ?thesis unfolding p by (simp add: c1) (simp add: mk_node_def)
  next
    case 3
    then show ?thesis unfolding p by (simp add: c2)
  qed
qed

lemma upt_21_list: "[0..<21] = [0, 1, 2, 3, 4, 5, 6, 7, 8, 9, 10, 11, 12, 13, 14, 15, 16, 17, 18, 19, 20 :: nat]"
  by code_simp

lemma two_isolated_points:
  "map (\<lambda>i. point_ngc (robustness_point two_isolated Degree [''A'', ''B''] i)) [0..<21]
   = [1 / 2, 1 / 2, 1 / 2, 1 / 2, 1 / 2, 1 / 2, 1 / 2, 1 / 2, 1 / 2, 1 / 2,
      1, 1, 1, 1, 1, 1, 1, 1, 1, 1, 0]"
  unfolding upt_21_list two_isolated_point by (simp add: nodesToRemove_2)

lemma edges_closedD:
  assumes "edges_closed ns es" and "e \<in> set es"
  shows "source e \<in> node_id ` set ns" and "target e \<in> node_id ` set ns"
  using assms by (auto simp: edges_closed_def list_all_iff)

lemma preds_known_closed:
  assumes "edges_closed ns es"
  shows "\<forall>p \<in> set (successors (revAdj (new_NetworkAnalyzer ns es)) v).
           map_of (adj (new_NetworkAnalyzer ns es)) p \<noteq> None"
  using edges_closedD(1)[OF assms]
  by (auto simp: successors_new_revAdj map_of_new_adj set_in_sources)

lemma pr_loop_total:
  assumes "edges_closed ns es"
  shows "\<exists>pr'. pr_loop k (new_NetworkAnalyzer ns es) alpha pr = Inr pr'"
proof (induction k arbitrary: pr)
  case 0
  then show ?case by simp
next
  case (Suc k)
  have "\<exists>pr1. pr_iteration (new_NetworkAnalyzer ns es) alpha pr = Inr pr1"
    using pr_node_fold[of ns "new_NetworkAnalyzer ns es" alpha pr "[]"] preds_known_closed[OF assms]
    by (simp add: pr_iteration_def)
  then obtain pr1 where "pr_iteration (new_NetworkAnalyzer ns es) alpha pr = Inr pr1" ..
  with Suc.IH[of pr1] show ?case by simp
qed

lemma calculateAllMetrics_total:
  assumes "edges_closed ns es"
  shows "\<exists>metrics. calculateAllMetrics (new_NetworkAnalyzer ns es) = Inr metrics"
proof -
  from pr_loop_total[OF assms] obtain pr where
    "calculatePageRank (new_NetworkAnalyzer ns es) (85 / 100) 50 = Inr pr"
    unfolding calculatePageRank_def by blast
  then show ?thesis
    unfolding calculateAllMetrics_def Let_def by simp
qed

lemma simulateRobustness_total:
  assumes "strat = Random \<or> edges_closed ns es"
  shows "\<exists>points. simulateRobustness (new_NetworkAnalyzer ns es) strat shuffle = Inr points"
proof (cases "strat = Random")
  case True
  then show ?thesis by (simp add: simulateRobustness_def)
next
  case False
  with assms calculateAllMetrics_total obtain metrics where
    "calculateAllMetrics (new_NetworkAnalyzer ns es) = Inr metrics" by blast
  with False show ?thesis by (simp add: simulateRobustness_def)
qed

subsection \<open>DomiRank stays non-negative and is normalised\<close>

definition domi_value ::
  "NetworkAnalyzer \<Rightarrow> real \<Rightarrow> real \<Rightarrow> real \<Rightarrow> num jsmap \<Rightarrow> Node \<Rightarrow> num" where
  "domi_value g alpha beta theta gamma node =
     (let ki = real (length (get_bang (adj g) (node_id node))
                     + length (get_bang (revAdj g) (node_id node)));
          sum1 = fold (\<lambda>target s. nan_lift2 (+) s (gamma_get gamma target))
                   (successors (adj g) (node_id node)) (Some 0);
          sumNeighbors = fold (\<lambda>source s. nan_lift2 (+) s (gamma_get gamma source))
                   (successors (revAdj g) (node_id node)) sum1;
          currentVal = gamma_get gamma (node_id node);
          delta = nan_lift2 (-) (nan_lift2 (*) (Some alpha) (nan_lift2 (-) (Some (theta * ki)) sumNeighbors))
                    (nan_lift2 (*) (Some beta) currentVal)
      in nan_lift2 max (Some 0) (nan_lift2 (+) currentVal delta))"

lemma domi_node_value:
  "domi_node g alpha beta theta gamma node nextGamma =
     AList.update (node_id node) (domi_value g alpha beta theta gamma node) nextGamma"
  by (simp add: domi_node_def domi_value_def Let_def)

lemma domi_iteration_map:
  assumes "distinct (map node_id (nodes g))"
  shows "domi_iteration g alpha beta theta gamma =
           map (\<lambda>n. (node_id n, domi_value g alpha beta theta gamma n)) (nodes g)"
proof -
  have "domi_iteration g alpha beta theta gamma =
          fold (\<lambda>n m. AList.update (node_id n) (domi_value g alpha beta theta gamma n) m) (nodes g) []"
    unfolding domi_iteration_def by (rule arg_cong[where f="\<lambda>f. fold f (nodes g) []"])
      (simp add: fun_eq_iff domi_node_value)
  also have "\<dots> = map (\<lambda>n. (node_id n, domi_value g alpha beta theta gamma n)) (nodes g)"
    using fold_update_fresh[of "[]" "nodes g"] assms by simp
  finally show ?thesis .
qed

text \<open>Every entry is a number, not NaN, and is not negative.\<close>

definition nonneg_map :: "num jsmap \<Rightarrow> bool" where
  "nonneg_map gamma = list_all (\<lambda>kv. case snd kv of None \<Rightarrow> False | Some x \<Rightarrow> 0 \<le> x) gamma"

lemma nonneg_map_get:
  assumes "nonneg_map gamma" and "k \<in> fst ` set gamma"
  shows "\<exists>x. gamma_get gamma k = Some x \<and> 0 \<le> x"
proof -
  from assms(2) obtain v where "map_of gamma k = Some v"
    by (metis domD dom_map_of_conv_image_fst)
  moreover from this have "(k, v) \<in> set gamma" by (rule map_of_SomeD)
  ultimately show ?thesis
    using assms(1) by (auto simp: nonneg_map_def list_all_iff gamma_get_def split: option.splits)
qed

lemma nan_lift2_Some: "nan_lift2 f (Some x) (Some y) = Some (f x y)"
  by (simp add: nan_lift2_def)

lemma fold_nan_add:
  assumes "\<forall>t \<in> set ts. \<exists>x. gamma_get gamma t = Some x"
  shows "\<exists>r. fold (\<lambda>t s. nan_lift2 (+) s (gamma_get gamma t)) ts (Some a) = Some r"
  using assms
proof (induction ts arbitrary: a)
  case Nil
  then show ?case by simp
next
  case (Cons t ts)
  then obtain x where "gamma_get gamma t = Some x" by auto
  with Cons show ?case by (simp add: nan_lift2_Some)
qed

lemma domi_value_nonneg:
  assumes g: "nonneg_map gamma"
    and self: "node_id node \<in> fst ` set gamma"
    and out: "set (successors (adj g) (node_id node)) \<subseteq> fst ` set gamma"
    and inn: "set (successors (revAdj g) (node_id node)) \<subseteq> fst ` set gamma"
  shows "\<exists>y. domi_value g alpha beta theta gamma node = Some y \<and> 0 \<le> y"
proof -
  have known: "\<forall>t \<in> fst ` set gamma. \<exists>x. gamma_get gamma t = Some x"
    using nonneg_map_get[OF g] by blast
  from fold_nan_add[of "successors (adj g) (node_id node)" gamma 0] known out
  obtain r1 where r1: "fold (\<lambda>t s. nan_lift2 (+) s (gamma_get gamma t))
      (successors (adj g) (node_id node)) (Some 0) = Some r1"
    by blast
  from fold_nan_add[of "successors (revAdj g) (node_id node)" gamma r1] known inn
  obtain r2 where r2: "fold (\<lambda>t s. nan_lift2 (+) s (gamma_get gamma t))
      (successors (revAdj g) (node_id node)) (Some r1) = Some r2"
    by blast
  from known self obtain c where c: "gamma_get gamma (node_id node) = Some c" by blast
  show ?thesis
    by (simp add: domi_value_def Let_def r1 r2 c nan_lift2_Some)
qed

lemma nonneg_map_map:
  "nonneg_map (map (\<lambda>n. (node_id n, f n)) ns) = (\<forall>n \<in> set ns. \<exists>y. f n = Some y \<and> 0 \<le> y)"
  by (auto simp: nonneg_map_def list_all_iff split: option.splits)

lemma domi_iteration_nonneg:
  assumes wf: "well_formed ns es"
    and keys: "map fst gamma = map node_id ns" and nn: "nonneg_map gamma"
  shows "map fst (domi_iteration (new_NetworkAnalyzer ns es) alpha beta theta gamma) = map node_id ns"
    and "nonneg_map (domi_iteration (new_NetworkAnalyzer ns es) alpha beta theta gamma)"
proof -
  let ?g = "new_NetworkAnalyzer ns es"
  note d = well_formedD(1)[OF wf]
  have it: "domi_iteration ?g alpha beta theta gamma =
          map (\<lambda>n. (node_id n, domi_value ?g alpha beta theta gamma n)) ns"
    using domi_iteration_map[of ?g] d by simp
  show "map fst (domi_iteration ?g alpha beta theta gamma) = map node_id ns"
    by (simp add: it comp_def)
  have V: "fst ` set gamma = node_id ` set ns"
    using arg_cong[OF keys, of set] by simp
  have "\<exists>y. domi_value ?g alpha beta theta gamma n = Some y \<and> 0 \<le> y" if "n \<in> set ns" for n
  proof (rule domi_value_nonneg[OF nn])
    show "node_id n \<in> fst ` set gamma" using that V by simp
    show "set (successors (adj ?g) (node_id n)) \<subseteq> fst ` set gamma"
      using well_formedD(3)[OF wf] by (auto simp: successors_new_adj set_out_targets V)
    show "set (successors (revAdj ?g) (node_id n)) \<subseteq> fst ` set gamma"
      using well_formedD(2)[OF wf] by (auto simp: successors_new_revAdj set_in_sources V)
  qed
  then show "nonneg_map (domi_iteration ?g alpha beta theta gamma)"
    by (simp add: it nonneg_map_map)
qed

lemma domi_loop_nonneg:
  assumes wf: "well_formed ns es"
  shows "map fst (domi_loop (new_NetworkAnalyzer ns es) alpha beta k) = map node_id ns
       \<and> nonneg_map (domi_loop (new_NetworkAnalyzer ns es) alpha beta k)"
proof (induction k)
  case 0
  have "init_map ns (Some (1 / real (length ns))) = map (\<lambda>n. (node_id n, Some (1 / real (length ns)))) ns"
    by (rule init_map_distinct[OF well_formedD(1)[OF wf]])
  then show ?case by (simp add: domi_loop_def nonneg_map_map comp_def)
next
  case (Suc k)
  then show ?case
    using domi_iteration_nonneg[OF wf, of "domi_loop (new_NetworkAnalyzer ns es) alpha beta k"]
    by (simp add: domi_loop_def)
qed

lemma nonneg_map_values:
  assumes "nonneg_map gamma"
  shows "\<exists>xs. map snd gamma = map Some xs \<and> (\<forall>x \<in> set xs. 0 \<le> x)"
  using assms
proof (induction gamma)
  case Nil
  then show ?case by (simp add: nonneg_map_def)
next
  case (Cons kv gamma)
  from Cons.prems obtain x where x: "snd kv = Some x" "0 \<le> x" and rest: "nonneg_map gamma"
    by (auto simp: nonneg_map_def split: option.splits)
  from Cons.IH[OF rest] obtain xs where "map snd gamma = map Some xs" "\<forall>x \<in> set xs. 0 \<le> x"
    by blast
  with x show ?case by (intro exI[of _ "x # xs"]) simp
qed

lemma domi_total_values:
  assumes "map snd gamma = map Some xs"
  shows "fold (\<lambda>kv t. nan_lift2 (+) t (snd kv)) gamma (Some a) = Some (a + sum_list xs)"
  using assms
proof (induction gamma arbitrary: xs a)
  case Nil
  then show ?case by simp
next
  case (Cons kv gamma)
  then obtain x xs' where xs: "xs = x # xs'" "snd kv = Some x" "map snd gamma = map Some xs'"
    by (cases xs) auto
  with Cons.IH[OF xs(3), of "a + x"] show ?case
    by (simp add: nan_lift2_Some add.assoc)
qed

lemma fold_update_each:
  assumes "distinct (map fst (pre @ post))" and "map fst post = map node_id ns"
  shows "fold (\<lambda>n m. AList.update (node_id n) (h (gamma_get m (node_id n))) m) ns (pre @ post)
           = pre @ map (\<lambda>kv. (fst kv, h (snd kv))) post"
  using assms
proof (induction ns arbitrary: pre post)
  case Nil
  then show ?case by simp
next
  case (Cons n ns)
  then obtain v post' where post: "post = (node_id n, v) # post'" and keys: "map fst post' = map node_id ns"
    by (cases post) auto
  from Cons.prems(1) post have fresh: "node_id n \<notin> fst ` set pre" by auto
  then have mo: "map_of (pre @ (node_id n, v) # post') (node_id n) = Some v"
    by (simp add: map_add_Some_iff map_of_eq_None_iff)
  have upd: "AList.update (node_id n) w (pre @ (node_id n, v) # post') = pre @ (node_id n, w) # post'" for w
    using fresh by (induction pre) auto
  have gg: "gamma_get (pre @ post) (node_id n) = v"
    unfolding gamma_get_def post mo by simp
  have step: "AList.update (node_id n) (h (gamma_get (pre @ post) (node_id n))) (pre @ post)
                = (pre @ [(node_id n, h v)]) @ post'"
    unfolding gg by (simp add: post upd)
  have "distinct (map fst ((pre @ [(node_id n, h v)]) @ post'))"
    using Cons.prems(1) post by auto
  from Cons.IH[OF this keys] show ?case
    by (simp add: step) (simp add: post)
qed

subsection \<open>Invariants of the breadth-first searches\<close>

text \<open>A node is visited when its distance is set.\<close>

definition vis :: "int jsmap \<Rightarrow> string \<Rightarrow> bool" where
  "vis d v = (\<exists>x. map_of d v = Some x \<and> 0 \<le> x)"

text \<open>
  While the successors of \<open>v\<close> are visited: \<open>v\<close> has left the queue, its distance is
  \<open>c\<close>, and the successors in \<open>W\<close> have been dealt with.
\<close>

definition closed_at :: "jsset jsmap \<Rightarrow> int jsmap \<Rightarrow> string \<Rightarrow> bool" where
  "closed_at a d u =
     (\<forall>w \<in> set (successors a u). w \<in> dom (map_of d) \<longrightarrow>
        vis d w \<and> get_bang d w \<le> get_bang d u + 1)"

definition has_parent :: "jsset jsmap \<Rightarrow> int jsmap \<Rightarrow> string \<Rightarrow> bool" where
  "has_parent a d w =
     (\<exists>v. vis d v \<and> w \<in> set (successors a v) \<and> get_bang d w = get_bang d v + 1)"

definition dq_mid ::
  "jsset jsmap \<Rightarrow> string \<Rightarrow> string \<Rightarrow> int \<Rightarrow> string set \<Rightarrow> int jsmap \<Rightarrow> string list \<Rightarrow> bool" where
  "dq_mid a s v c W d q =
     (map_of d s = Some 0
      \<and> (\<forall>u x. map_of d u = Some x \<longrightarrow> - 1 \<le> x)
      \<and> map_of d v = Some c \<and> 0 \<le> c
      \<and> (\<forall>u \<in> set q. vis d u \<and> c \<le> get_bang d u)
      \<and> sorted (map (get_bang d) q)
      \<and> (\<forall>u. vis d u \<longrightarrow> get_bang d u \<le> c + 1)
      \<and> (\<forall>u. vis d u \<longrightarrow> u \<notin> set q \<longrightarrow> u \<noteq> v \<longrightarrow> closed_at a d u)
      \<and> (\<forall>w \<in> W. w \<in> dom (map_of d) \<longrightarrow> vis d w)
      \<and> (\<forall>w. vis d w \<longrightarrow> w \<noteq> s \<longrightarrow> has_parent a d w))"

definition dq_inv :: "jsset jsmap \<Rightarrow> string \<Rightarrow> int jsmap \<Rightarrow> string list \<Rightarrow> bool" where
  "dq_inv a s d q =
     (map_of d s = Some 0
      \<and> (\<forall>u x. map_of d u = Some x \<longrightarrow> - 1 \<le> x)
      \<and> (\<forall>u \<in> set q. vis d u)
      \<and> sorted (map (get_bang d) q)
      \<and> (\<forall>u. vis d u \<longrightarrow> q \<noteq> [] \<longrightarrow> get_bang d u \<le> get_bang d (hd q) + 1)
      \<and> (\<forall>u. vis d u \<longrightarrow> u \<notin> set q \<longrightarrow> closed_at a d u)
      \<and> (\<forall>w. vis d w \<longrightarrow> w \<noteq> s \<longrightarrow> has_parent a d w))"

lemma vis_update_other:
  "w \<noteq> u \<Longrightarrow> vis (AList.update w y d) u = vis d u"
  by (simp add: vis_def update_conv')

lemma get_update_other:
  "w \<noteq> u \<Longrightarrow> get_bang (AList.update w y d) u = get_bang d u"
  by (simp add: get_bang_def update_conv')

lemma get_update_same: "get_bang (AList.update w y d) w = y"
  by (simp add: get_bang_def update_conv')

lemma vis_update_same: "vis (AList.update w y d) w = (0 \<le> y)"
  by (simp add: vis_def update_conv')

lemma not_vis_unvisited: "map_of d w = Some (- 1) \<Longrightarrow> \<not> vis d w"
  by (simp add: vis_def)

lemma dq_mid_start:
  assumes "dq_inv a s d (v # q)"
  shows "dq_mid a s v (get_bang d v) {} d q"
proof -
  from assms have v: "vis d v" by (simp add: dq_inv_def)
  then obtain c where c: "map_of d v = Some c" "0 \<le> c" by (auto simp: vis_def)
  then have g: "get_bang d v = c" by (simp add: get_bang_def)
  from assms have srt: "sorted (map (get_bang d) (v # q))" by (simp add: dq_inv_def)
  show ?thesis
    unfolding dq_mid_def g
    using assms c srt g by (auto simp: dq_inv_def)
qed

lemma dq_mid_visit:
  assumes m: "dq_mid a s v c W d q" and w: "w \<in> set (successors a v)"
    and r: "dq_visit v w (d, q) = (d', q')"
  shows "dq_mid a s v c (insert w W) d' q'"
proof (cases "map_of d w = Some (- 1)")
  case False
  with r have eq: "d' = d" "q' = q" by (simp_all add: dq_visit_pair)
  have "w \<in> dom (map_of d) \<longrightarrow> vis d w"
  proof
    assume "w \<in> dom (map_of d)"
    then obtain x where x: "map_of d w = Some x" by auto
    with m have "- 1 \<le> x" unfolding dq_mid_def by blast
    with x False show "vis d w" by (auto simp: vis_def)
  qed
  with m show ?thesis unfolding eq dq_mid_def by simp
next
  case True
  from m have dv: "map_of d v = Some c" and c0: "0 \<le> c" by (simp_all add: dq_mid_def)
  then have gv: "get_bang d v = c" by (simp add: get_bang_def)
  from r True gv have eq: "d' = AList.update w (c + 1) d" "q' = q @ [w]"
    by (simp_all add: dq_visit_pair)
  from True have nv: "\<not> vis d w" by (rule not_vis_unvisited)
  from m have ds: "map_of d s = Some 0" by (simp add: dq_mid_def)
  with True have ws: "w \<noteq> s" by auto
  from dv c0 True have wv: "w \<noteq> v" by auto
  have vv: "vis d v" using dv c0 by (auto simp: vis_def)
  have other: "vis d' u = vis d u" "get_bang d' u = get_bang d u" "map_of d' u = map_of d u"
    if "u \<noteq> w" for u
    using that by (simp_all add: eq vis_def get_bang_def update_conv')
  have same: "vis d' w" "get_bang d' w = c + 1" "map_of d' w = Some (c + 1)"
    using c0 by (simp_all add: eq vis_def get_bang_def update_conv')
  have visD: "vis d u" if "vis d' u" "u \<noteq> w" for u
    using that other by simp
  have dom_eq: "dom (map_of d') = dom (map_of d)"
    using True by (auto simp: eq update_conv')
  have 1: "map_of d' s = Some 0" using ds ws other by simp
  have 2: "\<forall>u x. map_of d' u = Some x \<longrightarrow> - 1 \<le> x"
  proof (intro allI impI)
    fix u x assume ux: "map_of d' u = Some x"
    show "- 1 \<le> x"
    proof (cases "u = w")
      case True
      with ux same c0 show ?thesis by simp
    next
      case False
      with ux other have "map_of d u = Some x" by simp
      with m show ?thesis unfolding dq_mid_def by blast
    qed
  qed
  have 3: "map_of d' v = Some c" using dv wv other by simp
  have qn: "u \<noteq> w" if "u \<in> set q" for u
    using that m nv unfolding dq_mid_def by blast
  have 4: "\<forall>u \<in> set q'. vis d' u \<and> c \<le> get_bang d' u"
  proof
    fix u assume "u \<in> set q'"
    then consider "u \<in> set q" | "u = w" by (auto simp: eq)
    then show "vis d' u \<and> c \<le> get_bang d' u"
    proof cases
      case 1
      with m have "vis d u \<and> c \<le> get_bang d u" unfolding dq_mid_def by blast
      with qn[OF 1] other show ?thesis by simp
    next
      case 2
      with same show ?thesis by simp
    qed
  qed
  have le: "\<forall>u. vis d u \<longrightarrow> get_bang d u \<le> c + 1"
    using m unfolding dq_mid_def by blast
  have 5: "sorted (map (get_bang d') q')"
  proof -
    have meq: "map (get_bang d') q = map (get_bang d) q"
      by (rule map_cong) (simp_all add: qn other)
    have "sorted (map (get_bang d) q)" using m by (simp add: dq_mid_def)
    moreover have "\<forall>u \<in> set q. get_bang d u \<le> c + 1"
      using m le unfolding dq_mid_def by blast
    ultimately show ?thesis
      unfolding eq(2) map_append meq by (simp add: sorted_append same)
  qed
  have 6: "\<forall>u. vis d' u \<longrightarrow> get_bang d' u \<le> c + 1"
  proof (intro allI impI)
    fix u assume "vis d' u"
    then show "get_bang d' u \<le> c + 1"
      using le other[of u] same by (cases "u = w") auto
  qed
  have 7: "\<forall>u. vis d' u \<longrightarrow> u \<notin> set q' \<longrightarrow> u \<noteq> v \<longrightarrow> closed_at a d' u"
  proof (intro allI impI)
    fix u assume u: "vis d' u" "u \<notin> set q'" "u \<noteq> v"
    then have uw: "u \<noteq> w" by (auto simp: eq)
    from u(1) uw have "vis d u" by (rule visD)
    moreover from u(2) have "u \<notin> set q" by (simp add: eq(2))
    ultimately have cl: "closed_at a d u" using m u(3) unfolding dq_mid_def by blast
    show "closed_at a d' u"
      unfolding closed_at_def
    proof (intro ballI impI)
      fix x assume x: "x \<in> set (successors a u)" "x \<in> dom (map_of d')"
      with cl dom_eq have vx: "vis d x" "get_bang d x \<le> get_bang d u + 1"
        unfolding closed_at_def by auto
      with nv have "x \<noteq> w" by auto
      with vx uw other show "vis d' x \<and> get_bang d' x \<le> get_bang d' u + 1" by simp
    qed
  qed
  have 8: "\<forall>x \<in> insert w W. x \<in> dom (map_of d') \<longrightarrow> vis d' x"
  proof (intro ballI impI)
    fix x assume x: "x \<in> insert w W" "x \<in> dom (map_of d')"
    show "vis d' x"
    proof (cases "x = w")
      case True
      with same show ?thesis by simp
    next
      case False
      with x dom_eq m have "vis d x" unfolding dq_mid_def by auto
      with False other show ?thesis by simp
    qed
  qed
  have 9: "\<forall>x. vis d' x \<longrightarrow> x \<noteq> s \<longrightarrow> has_parent a d' x"
  proof (intro allI impI)
    fix x assume x: "vis d' x" "x \<noteq> s"
    show "has_parent a d' x"
    proof (cases "x = w")
      case True
      have "vis d' v" using vv wv other by simp
      moreover have "get_bang d' w = get_bang d' v + 1"
        using same other[of v] wv gv by simp
      ultimately show ?thesis unfolding has_parent_def True using w by blast
    next
      case False
      with x have "vis d x" by (simp add: other)
      with m x(2) have "has_parent a d x" unfolding dq_mid_def by blast
      then obtain p where p: "vis d p" "x \<in> set (successors a p)" "get_bang d x = get_bang d p + 1"
        unfolding has_parent_def by blast
      with nv have pw: "p \<noteq> w" by auto
      have "vis d' p" using p(1) other(1)[OF pw] by simp
      moreover have "get_bang d' x = get_bang d' p + 1"
        using p(3) other(2)[OF pw] other(2)[OF False] by simp
      ultimately show ?thesis unfolding has_parent_def using p(2) by blast
    qed
  qed
  show ?thesis
    unfolding dq_mid_def by (intro conjI) (fact 1 2 3 c0 4 5 6 7 8 9)+
qed

lemma dq_mid_fold:
  assumes "dq_mid a s v c W d q" and "set ws \<subseteq> set (successors a v)"
    and "fold (dq_visit v) ws (d, q) = (d', q')"
  shows "dq_mid a s v c (W \<union> set ws) d' q'"
  using assms
proof (induction ws arbitrary: W d q)
  case Nil
  then show ?case by simp
next
  case (Cons w ws)
  obtain d1 q1 where 1: "dq_visit v w (d, q) = (d1, q1)" by (cases "dq_visit v w (d, q)")
  from Cons.prems(2) have w: "w \<in> set (successors a v)" and ws: "set ws \<subseteq> set (successors a v)"
    by auto
  from dq_mid_visit[OF Cons.prems(1) w 1] have "dq_mid a s v c (insert w W) d1 q1" .
  from Cons.IH[OF this ws] Cons.prems(3) 1 show ?case by simp
qed

lemma dq_mid_finish:
  assumes m: "dq_mid a s v c (set (successors a v)) d q"
  shows "dq_inv a s d q"
proof -
  from m have gv: "get_bang d v = c" by (simp add: dq_mid_def get_bang_def)
  have le: "\<forall>u. vis d u \<longrightarrow> get_bang d u \<le> c + 1"
    using m unfolding dq_mid_def by blast
  have hd: "\<forall>u. vis d u \<longrightarrow> q \<noteq> [] \<longrightarrow> get_bang d u \<le> get_bang d (hd q) + 1"
  proof (intro allI impI)
    fix u assume u: "vis d u" "q \<noteq> []"
    then have "hd q \<in> set q" by simp
    with m have "c \<le> get_bang d (hd q)" unfolding dq_mid_def by blast
    with le u(1) show "get_bang d u \<le> get_bang d (hd q) + 1" by fastforce
  qed
  have cl: "\<forall>u. vis d u \<longrightarrow> u \<notin> set q \<longrightarrow> closed_at a d u"
  proof (intro allI impI)
    fix u assume u: "vis d u" "u \<notin> set q"
    show "closed_at a d u"
    proof (cases "u = v")
      case True
      show ?thesis
        unfolding closed_at_def True
      proof (intro ballI impI)
        fix w assume "w \<in> set (successors a v)" "w \<in> dom (map_of d)"
        with m have "vis d w" unfolding dq_mid_def by blast
        with le gv show "vis d w \<and> get_bang d w \<le> get_bang d v + 1" by simp
      qed
    next
      case False
      with m u show ?thesis unfolding dq_mid_def by blast
    qed
  qed
  from m have "map_of d s = Some 0" "\<forall>u x. map_of d u = Some x \<longrightarrow> - 1 \<le> x"
    "\<forall>u \<in> set q. vis d u" "sorted (map (get_bang d) q)"
    "\<forall>w. vis d w \<longrightarrow> w \<noteq> s \<longrightarrow> has_parent a d w"
    unfolding dq_mid_def by simp_all
  with hd cl show ?thesis
    unfolding dq_inv_def by simp
qed

lemma dq_inv_step:
  assumes "dq_inv a s d (v # q)" and "fold (dq_visit v) (successors a v) (d, q) = (d', q')"
  shows "dq_inv a s d' q'"
  using dq_mid_finish[of a s v "get_bang d v" d' q']
    dq_mid_fold[OF dq_mid_start[OF assms(1)] subset_refl assms(2)]
  by simp

lemma dq_visit_keys:
  assumes "dq_visit v w (d, q) = (d', q')"
  shows "map fst d' = map fst d"
proof (cases "map_of d w = Some (- 1)")
  case True
  then have "(w, - 1) \<in> set d" by (rule map_of_SomeD)
  then have "w \<in> fst ` set d" by force
  then have "map fst (AList.update w (get_bang d v + 1) d) = map fst d"
    by (simp add: update_keys)
  with assms True show ?thesis by (simp add: dq_visit_pair)
next
  case False
  with assms show ?thesis by (simp add: dq_visit_pair)
qed

lemma dq_fold_keys:
  assumes "fold (dq_visit v) ws (d, q) = (d', q')"
  shows "map fst d' = map fst d"
  using assms
proof (induction ws arbitrary: d q)
  case Nil
  then show ?case by simp
next
  case (Cons w ws)
  obtain d1 q1 where 1: "dq_visit v w (d, q) = (d1, q1)" by (cases "dq_visit v w (d, q)")
  with Cons.prems have "fold (dq_visit v) ws (d1, q1) = (d', q')" by simp
  from Cons.IH[OF this] dq_visit_keys[OF 1] show ?case by simp
qed

text \<open>The edges between keys of the distance map, and what the finished search says.\<close>

definition key_edges :: "jsset jsmap \<Rightarrow> int jsmap \<Rightarrow> (string \<times> string) set" where
  "key_edges a d =
     {(v, w). v \<in> dom (map_of d) \<and> w \<in> dom (map_of d) \<and> w \<in> set (successors a v)}"

lemma vis_dom: "vis d v \<Longrightarrow> v \<in> dom (map_of d)"
  by (auto simp: vis_def)

lemma vis_get_nonneg: "vis d v \<Longrightarrow> 0 \<le> get_bang d v"
  by (auto simp: vis_def get_bang_def)

lemma walk_bound:
  assumes inv: "dq_inv a s d []" and w: "(s, t) \<in> key_edges a d ^^ k"
  shows "vis d t \<and> get_bang d t \<le> int k"
  using w
proof (induction k arbitrary: t)
  case 0
  then have "t = s" by simp
  with inv show ?case by (simp add: dq_inv_def vis_def get_bang_def)
next
  case (Suc k)
  then obtain u where u: "(s, u) \<in> key_edges a d ^^ k" "(u, t) \<in> key_edges a d" by auto
  from Suc.IH[OF u(1)] have vu: "vis d u" "get_bang d u \<le> int k" by simp_all
  with inv have "closed_at a d u" by (simp add: dq_inv_def)
  with u(2) have "vis d t \<and> get_bang d t \<le> get_bang d u + 1"
    unfolding closed_at_def key_edges_def by auto
  with vu show ?case by simp
qed

lemma walk_exists:
  assumes inv: "dq_inv a s d q" and v: "vis d t"
  shows "(s, t) \<in> key_edges a d ^^ nat (get_bang d t)"
  using v
proof (induction "nat (get_bang d t)" arbitrary: t rule: less_induct)
  case less
  show ?case
  proof (cases "t = s")
    case True
    with inv show ?thesis by (simp add: dq_inv_def get_bang_def)
  next
    case False
    with inv less.prems have "has_parent a d t" by (simp add: dq_inv_def)
    then obtain p where p: "vis d p" "t \<in> set (successors a p)" "get_bang d t = get_bang d p + 1"
      unfolding has_parent_def by blast
    have p0: "0 \<le> get_bang d p" using p(1) by (rule vis_get_nonneg)
    with p(3) have lt: "nat (get_bang d p) < nat (get_bang d t)" by simp
    from less.hyps[OF lt p(1)] have "(s, p) \<in> key_edges a d ^^ nat (get_bang d p)" .
    moreover have "(p, t) \<in> key_edges a d"
      using p(1,2) less.prems by (simp add: key_edges_def vis_dom)
    ultimately have "(s, t) \<in> key_edges a d ^^ Suc (nat (get_bang d p))" by auto
    moreover have "Suc (nat (get_bang d p)) = nat (get_bang d t)" using p(3) p0 by simp
    ultimately show ?thesis by simp
  qed
qed

lemma bfs_distance:
  assumes inv: "dq_inv a s d []"
  shows "vis d t \<longleftrightarrow> (s, t) \<in> (key_edges a d)\<^sup>*"
    and "vis d t \<Longrightarrow> get_bang d t = int (LEAST k. (s, t) \<in> key_edges a d ^^ k)"
proof -
  show "vis d t \<longleftrightarrow> (s, t) \<in> (key_edges a d)\<^sup>*"
  proof
    assume "vis d t"
    from walk_exists[OF inv this] show "(s, t) \<in> (key_edges a d)\<^sup>*"
      by (auto simp: rtrancl_power)
  next
    assume "(s, t) \<in> (key_edges a d)\<^sup>*"
    then obtain k where "(s, t) \<in> key_edges a d ^^ k" by (auto simp: rtrancl_power)
    from walk_bound[OF inv this] show "vis d t" by simp
  qed
next
  assume v: "vis d t"
  let ?P = "\<lambda>k. (s, t) \<in> key_edges a d ^^ k"
  have ex: "?P (nat (get_bang d t))" using walk_exists[OF inv v] .
  have "(LEAST k. ?P k) = nat (get_bang d t)"
  proof (rule Least_equality)
    show "?P (nat (get_bang d t))" by (rule ex)
  next
    fix k assume "?P k"
    from walk_bound[OF inv this] show "nat (get_bang d t) \<le> k" by linarith
  qed
  with vis_get_nonneg[OF v] show "get_bang d t = int (LEAST k. ?P k)" by simp
qed

text \<open>The positive distances of a map: their sum and their number.\<close>

definition pos_sum :: "int jsmap \<Rightarrow> int" where
  "pos_sum d = (\<Sum>kv\<leftarrow>d. if 0 < snd kv then snd kv else 0)"

definition pos_cnt :: "int jsmap \<Rightarrow> nat" where
  "pos_cnt d = length (filter (\<lambda>kv. 0 < snd kv) d)"

lemma pos_update:
  assumes "map_of d w = Some (- 1)" and "0 < y"
  shows "pos_sum (AList.update w y d) = pos_sum d + y"
    and "pos_cnt (AList.update w y d) = Suc (pos_cnt d)"
  using assms by (induction d) (auto simp: pos_sum_def pos_cnt_def split: if_splits)

lemma reach_visit_acc:
  assumes "map_of (r_d st) v = Some c" and "0 \<le> c"
  shows "r_totalDist (reach_visit v w st) + pos_sum (r_d st)
           = r_totalDist st + pos_sum (r_d (reach_visit v w st))"
    and "r_reachableCount (reach_visit v w st) + pos_cnt (r_d st)
           = r_reachableCount st + pos_cnt (r_d (reach_visit v w st))"
    and "map_of (r_d (reach_visit v w st)) v = Some c"
proof -
  have g: "get_bang (r_d st) v = c" using assms(1) by (simp add: get_bang_def)
  show "r_totalDist (reach_visit v w st) + pos_sum (r_d st)
           = r_totalDist st + pos_sum (r_d (reach_visit v w st))"
    using assms pos_update(1)[of "r_d st" w "c + 1"]
    by (simp add: reach_visit_def Let_def g get_update_same)
  show "r_reachableCount (reach_visit v w st) + pos_cnt (r_d st)
           = r_reachableCount st + pos_cnt (r_d (reach_visit v w st))"
    using assms pos_update(2)[of "r_d st" w "c + 1"]
    by (simp add: reach_visit_def Let_def g)
  show "map_of (r_d (reach_visit v w st)) v = Some c"
    using assms by (auto simp: reach_visit_def Let_def update_conv')
qed

lemma reach_fold_acc:
  assumes "map_of (r_d st) v = Some c" and "0 \<le> c"
  shows "r_totalDist (fold (reach_visit v) ws st) + pos_sum (r_d st)
           = r_totalDist st + pos_sum (r_d (fold (reach_visit v) ws st))
       \<and> r_reachableCount (fold (reach_visit v) ws st) + pos_cnt (r_d st)
           = r_reachableCount st + pos_cnt (r_d (fold (reach_visit v) ws st))"
  using assms
proof (induction ws arbitrary: st)
  case Nil
  then show ?case by simp
next
  case (Cons w ws)
  note a = reach_visit_acc[OF Cons.prems, of w]
  from Cons.IH[OF a(3) Cons.prems(2)] a(1,2) show ?case by simp
qed

lemma reach_bfs_result:
  assumes "dq_inv a s (r_d st) (r_queue st)"
  shows "dq_inv a s (r_d (reach_bfs a st)) []
       \<and> map fst (r_d (reach_bfs a st)) = map fst (r_d st)
       \<and> r_totalDist (reach_bfs a st) + pos_sum (r_d st)
           = r_totalDist st + pos_sum (r_d (reach_bfs a st))
       \<and> r_reachableCount (reach_bfs a st) + pos_cnt (r_d st)
           = r_reachableCount st + pos_cnt (r_d (reach_bfs a st))"
  using assms
proof (induction a st rule: reach_bfs.induct)
  case (1 a st)
  show ?case
  proof (cases "r_queue st")
    case Nil
    then have "reach_bfs a st = st" by (subst reach_bfs.simps) simp
    with "1.prems" Nil show ?thesis by simp
  next
    case (Cons v q)
    let ?st1 = "fold (reach_visit v) (successors a v) (st\<lparr>r_queue := q\<rparr>)"
    have r: "reach_bfs a st = reach_bfs a ?st1"
      using Cons by (subst reach_bfs.simps) simp
    have proj: "fold (dq_visit v) (successors a v) (r_d st, q) = (r_d ?st1, r_queue ?st1)"
      using reach_fold_dq[of v "successors a v" "st\<lparr>r_queue := q\<rparr>"] by simp
    from "1.prems" Cons have inv0: "dq_inv a s (r_d st) (v # q)" by simp
    from dq_inv_step[OF inv0 proj] have inv1: "dq_inv a s (r_d ?st1) (r_queue ?st1)" .
    from inv0 have "vis (r_d st) v" by (simp add: dq_inv_def)
    then obtain c where c: "map_of (r_d st) v = Some c" "0 \<le> c" by (auto simp: vis_def)
    from reach_fold_acc[of "st\<lparr>r_queue := q\<rparr>" v c "successors a v"] c
    have acc: "r_totalDist ?st1 + pos_sum (r_d st) = r_totalDist st + pos_sum (r_d ?st1)"
      "r_reachableCount ?st1 + pos_cnt (r_d st) = r_reachableCount st + pos_cnt (r_d ?st1)"
      by simp_all
    have keys: "map fst (r_d ?st1) = map fst (r_d st)"
      using dq_fold_keys[OF proj] .
    from "1.IH"[OF Cons inv1] acc keys show ?thesis
      unfolding r by simp
  qed
qed

lemma get_bang_snd:
  assumes "distinct (map fst d)" and "kv \<in> set d"
  shows "get_bang d (fst kv) = snd kv"
  using assms by (cases kv) (simp add: get_bang_def)

lemma pos_sum_keys:
  assumes "distinct (map fst d)"
  shows "pos_sum d = (\<Sum>k \<in> {k \<in> fst ` set d. 0 < get_bang d k}. get_bang d k)"
    and "pos_cnt d = card {k \<in> fst ` set d. 0 < get_bang d k}"
proof -
  let ?f = "\<lambda>x::int. if 0 < x then x else 0"
  have "pos_sum d = (\<Sum>kv\<leftarrow>d. ?f (get_bang d (fst kv)))"
    unfolding pos_sum_def
    by (rule arg_cong[where f=sum_list], rule map_cong) (simp_all add: get_bang_snd[OF assms])
  also have "\<dots> = sum_list (map (\<lambda>k. ?f (get_bang d k)) (map fst d))"
    by (simp add: comp_def)
  also have "\<dots> = (\<Sum>k \<in> set (map fst d). ?f (get_bang d k))"
    using assms by (rule sum_list_distinct_conv_sum_set)
  also have "\<dots> = (\<Sum>k \<in> {k \<in> fst ` set d. 0 < get_bang d k}. get_bang d k)"
    by (simp add: sum.inter_filter[symmetric])
  finally show "pos_sum d = (\<Sum>k \<in> {k \<in> fst ` set d. 0 < get_bang d k}. get_bang d k)" .
  have "filter (\<lambda>kv. 0 < snd kv) d = filter (\<lambda>kv. 0 < get_bang d (fst kv)) d"
    by (rule filter_cong) (simp_all add: get_bang_snd[OF assms])
  then have "pos_cnt d = length (filter (\<lambda>k. 0 < get_bang d k) (map fst d))"
    by (simp add: pos_cnt_def filter_map comp_def)
  also have "\<dots> = card (set (filter (\<lambda>k. 0 < get_bang d k) (map fst d)))"
    by (rule distinct_card[symmetric]) (rule distinct_filter[OF assms])
  also have "set (filter (\<lambda>k. 0 < get_bang d k) (map fst d)) = {k \<in> fst ` set d. 0 < get_bang d k}"
    by auto
  finally show "pos_cnt d = card {k \<in> fst ` set d. 0 < get_bang d k}" .
qed

text \<open>The graph of the edge list: reachability, distance, and the closeness of the spec.\<close>

definition reachable_from :: "Edge list \<Rightarrow> string \<Rightarrow> string set" where
  "reachable_from es s = {t. t \<noteq> s \<and> (s, t) \<in> (edge_pairs es)\<^sup>*}"

definition hop_distance :: "Edge list \<Rightarrow> string \<Rightarrow> string \<Rightarrow> nat" where
  "hop_distance es s t = (LEAST k. (s, t) \<in> edge_pairs es ^^ k)"

definition closeness_spec :: "Edge list \<Rightarrow> string \<Rightarrow> real" where
  "closeness_spec es s =
     (if reachable_from es s = {} then 0
      else real (card (reachable_from es s))
             / real (\<Sum>t \<in> reachable_from es s. hop_distance es s t))"

lemma key_edges_new:
  assumes wf: "well_formed ns es" and dom: "dom (map_of d) = node_id ` set ns"
  shows "key_edges (adj (new_NetworkAnalyzer ns es)) d = edge_pairs es"
proof -
  have "(v, w) \<in> key_edges (adj (new_NetworkAnalyzer ns es)) d \<longleftrightarrow> (v, w) \<in> edge_pairs es" for v w
  proof
    assume "(v, w) \<in> key_edges (adj (new_NetworkAnalyzer ns es)) d"
    then have "w \<in> set (out_targets es v)"
      by (auto simp: key_edges_def dom successors_new_adj split: if_splits)
    then obtain e where "e \<in> set es" "source e = v" "target e = w"
      by (auto simp: set_out_targets)
    then show "(v, w) \<in> edge_pairs es"
      unfolding edge_pairs_def by (intro image_eqI[of _ _ e]) simp_all
  next
    assume "(v, w) \<in> edge_pairs es"
    then obtain e where e: "e \<in> set es" "source e = v" "target e = w"
      by (auto simp: edge_pairs_def)
    with well_formedD(2,3)[OF wf] have "v \<in> node_id ` set ns" "w \<in> node_id ` set ns" by auto
    with e show "(v, w) \<in> key_edges (adj (new_NetworkAnalyzer ns es)) d"
      by (auto simp: key_edges_def dom successors_new_adj set_out_targets)
  qed
  then show ?thesis by auto
qed

lemma pos_zero:
  "\<forall>kv \<in> set d. snd kv \<le> 0 \<Longrightarrow> pos_sum d = 0 \<and> pos_cnt d = 0"
  by (induction d) (auto simp: pos_sum_def pos_cnt_def)

lemma dq_inv_initial:
  "dq_inv a (node_id n) (AList.update (node_id n) 0 (init_map ns (- 1))) [node_id n]"
proof -
  let ?s = "node_id n"
  let ?d = "AList.update ?s 0 (init_map ns (- 1 :: int))"
  have mo: "map_of ?d u = (if u = ?s then Some 0 else if u \<in> node_id ` set ns then Some (- 1) else None)" for u
    by (simp add: update_conv' map_of_init_map)
  have visD: "vis ?d u \<Longrightarrow> u = ?s" for u
    by (auto simp: vis_def mo split: if_splits)
  have g: "get_bang ?d ?s = 0" by (simp add: get_bang_def mo)
  show "dq_inv a ?s ?d [?s]"
    unfolding dq_inv_def
  proof (intro conjI)
    show "map_of ?d ?s = Some 0" by (simp add: mo)
    show "\<forall>u x. map_of ?d u = Some x \<longrightarrow> - 1 \<le> x" by (auto simp: mo split: if_splits)
    show "\<forall>u \<in> set [?s]. vis ?d u" by (simp add: vis_def mo)
    show "sorted (map (get_bang ?d) [?s])" by simp
    show "\<forall>u. vis ?d u \<longrightarrow> [?s] \<noteq> [] \<longrightarrow> get_bang ?d u \<le> get_bang ?d (hd [?s]) + 1"
    proof (intro allI impI)
      fix u assume "vis ?d u"
      then have "u = ?s" by (rule visD)
      then show "get_bang ?d u \<le> get_bang ?d (hd [?s]) + 1" by (simp add: g)
    qed
    show "\<forall>u. vis ?d u \<longrightarrow> u \<notin> set [?s] \<longrightarrow> closed_at a ?d u"
      using visD by auto
    show "\<forall>w. vis ?d w \<longrightarrow> w \<noteq> ?s \<longrightarrow> has_parent a ?d w"
      using visD by auto
  qed
qed

lemma pos_initial:
  assumes "distinct (map node_id ns)" and "n \<in> set ns"
  shows "pos_sum (AList.update (node_id n) 0 (init_map ns (- 1))) = 0"
    and "pos_cnt (AList.update (node_id n) 0 (init_map ns (- 1))) = 0"
    and "map fst (AList.update (node_id n) (0 :: int) (init_map ns (- 1))) = map node_id ns"
proof -
  let ?s = "node_id n"
  let ?d = "AList.update ?s 0 (init_map ns (- 1 :: int))"
  have mo: "map_of ?d u = (if u = ?s then Some 0 else if u \<in> node_id ` set ns then Some (- 1) else None)" for u
    by (simp add: update_conv' map_of_init_map)
  have vals: "\<forall>kv \<in> set ?d. snd kv \<le> 0"
  proof
    fix kv assume kv: "kv \<in> set ?d"
    have dd: "distinct (map fst ?d)"
      using assms(1) by (simp add: distinct_update init_map_distinct comp_def)
    have "map_of ?d (fst kv) = Some (snd kv)"
      using map_of_is_SomeI[OF dd, of "fst kv" "snd kv"] kv by simp
    then show "snd kv \<le> 0" by (auto simp: mo split: if_splits)
  qed
  show "pos_sum ?d = 0" "pos_cnt ?d = 0"
    using pos_zero[OF vals] by simp_all
  have k: "map fst (init_map ns (- 1 :: int)) = map node_id ns"
    using assms(1) by (simp add: init_map_distinct comp_def)
  have "?s \<in> set (map fst (init_map ns (- 1 :: int)))"
    unfolding k using assms(2) by simp
  then have "map fst ?d = map fst (init_map ns (- 1 :: int))"
    by (simp only: update_keys if_True)
  with k show "map fst ?d = map node_id ns" by simp
qed

lemma reach_from_result:
  assumes wf: "well_formed ns es" and n: "n \<in> set ns"
  shows "r_reachableCount (reach_from (new_NetworkAnalyzer ns es) n T0 C0)
           = C0 + card (reachable_from es (node_id n))"
    and "r_totalDist (reach_from (new_NetworkAnalyzer ns es) n T0 C0)
           = T0 + int (\<Sum>t \<in> reachable_from es (node_id n). hop_distance es (node_id n) t)"
    and "finite (reachable_from es (node_id n))"
    and "\<forall>t \<in> reachable_from es (node_id n). 0 < hop_distance es (node_id n) t"
proof -
  let ?g = "new_NetworkAnalyzer ns es"
  let ?s = "node_id n"
  let ?dinit = "AList.update ?s 0 (init_map ns (- 1 :: int))"
  let ?init = "\<lparr>r_d = ?dinit, r_queue = [?s], r_totalDist = T0, r_reachableCount = C0\<rparr>"
  let ?st = "reach_bfs (adj ?g) ?init"
  let ?d = "r_d ?st"
  let ?R = "reachable_from es ?s"
  note dist = well_formedD(1)[OF wf]
  note init = dq_inv_initial[of "adj ?g" n ns] pos_initial[OF dist n]
  have st: "reach_from ?g n T0 C0 = ?st" by (simp add: reach_from_def)
  have "dq_inv (adj ?g) ?s (r_d ?init) (r_queue ?init)" using init(1) by simp
  from reach_bfs_result[OF this]
  have inv: "dq_inv (adj ?g) ?s ?d []"
    and keys: "map fst ?d = map node_id ns"
    and tot: "r_totalDist ?st = T0 + pos_sum ?d"
    and cnt: "r_reachableCount ?st = C0 + pos_cnt ?d"
    using init(2,3,4) by simp_all
  have dk: "distinct (map fst ?d)" using keys dist by simp
  have dom: "dom (map_of ?d) = node_id ` set ns"
    using arg_cong[OF keys, of set] by (simp add: dom_map_of_conv_image_fst)
  have E: "key_edges (adj ?g) ?d = edge_pairs es" by (rule key_edges_new[OF wf dom])
  have src: "get_bang ?d ?s = 0" using inv by (simp add: dq_inv_def get_bang_def)
  have pos: "0 < get_bang ?d t" and hop: "get_bang ?d t = int (hop_distance es ?s t)"
    and key: "t \<in> fst ` set ?d" if t: "t \<in> ?R" for t
  proof -
    from t have ts: "t \<noteq> ?s" and "(?s, t) \<in> (key_edges (adj ?g) ?d)\<^sup>*"
      by (simp_all add: reachable_from_def E)
    with bfs_distance(1)[OF inv] have v: "vis ?d t" by simp
    with inv ts have "has_parent (adj ?g) ?d t" by (simp add: dq_inv_def)
    then obtain p where "vis ?d p" "get_bang ?d t = get_bang ?d p + 1"
      unfolding has_parent_def by blast
    with vis_get_nonneg[of ?d p] show "0 < get_bang ?d t" by simp
    from bfs_distance(2)[OF inv v] show "get_bang ?d t = int (hop_distance es ?s t)"
      by (simp add: hop_distance_def E)
    from vis_dom[OF v] show "t \<in> fst ` set ?d" by (simp add: dom_map_of_conv_image_fst)
  qed
  have R: "{k \<in> fst ` set ?d. 0 < get_bang ?d k} = ?R"
  proof (intro set_eqI iffI)
    fix k assume "k \<in> {k \<in> fst ` set ?d. 0 < get_bang ?d k}"
    then have k: "k \<in> dom (map_of ?d)" "0 < get_bang ?d k"
      by (simp_all add: dom_map_of_conv_image_fst)
    then have "vis ?d k" by (auto simp: vis_def get_bang_def)
    with bfs_distance(1)[OF inv] have "(?s, k) \<in> (edge_pairs es)\<^sup>*" by (simp add: E)
    moreover from k(2) src have "k \<noteq> ?s" by auto
    ultimately show "k \<in> ?R" by (simp add: reachable_from_def)
  next
    fix k assume "k \<in> ?R"
    with pos key show "k \<in> {k \<in> fst ` set ?d. 0 < get_bang ?d k}" by simp
  qed
  show fin: "finite ?R"
    unfolding R[symmetric] by simp
  show "r_reachableCount (reach_from ?g n T0 C0) = C0 + card ?R"
    unfolding st cnt pos_sum_keys(2)[OF dk] R ..
  have "pos_sum ?d = (\<Sum>k \<in> ?R. get_bang ?d k)"
    unfolding pos_sum_keys(1)[OF dk] R ..
  also have "\<dots> = (\<Sum>k \<in> ?R. int (hop_distance es ?s k))"
    by (rule sum.cong) (simp_all add: hop)
  finally show "r_totalDist (reach_from ?g n T0 C0)
      = T0 + int (\<Sum>t \<in> ?R. hop_distance es ?s t)"
    unfolding st tot by simp
  show "\<forall>t \<in> ?R. 0 < hop_distance es ?s t"
    using pos hop by fastforce
qed

lemma closeness_source_update:
  "closeness_source g n cl =
     AList.update (node_id n)
       (if r_reachableCount (reach_from g n 0 0) > 0
        then real (r_reachableCount (reach_from g n 0 0))
               / real_of_int (r_totalDist (reach_from g n 0 0))
        else 0) cl"
  by (simp add: closeness_source_def Let_def)

lemma map_of_node_map:
  assumes "distinct (map node_id ns)" and "n \<in> set ns"
  shows "map_of (map (\<lambda>n. (node_id n, f n)) ns) (node_id n) = Some (f n)"
  using assms by (induction ns) (auto simp: image_iff)

lemma closeness_is_spec:
  assumes wf: "well_formed ns es" and n: "n \<in> set ns"
  shows "map_of (calculateCloseness (new_NetworkAnalyzer ns es)) (node_id n)
           = Some (closeness_spec es (node_id n))"
proof -
  let ?g = "new_NetworkAnalyzer ns es"
  let ?val = "\<lambda>n. if r_reachableCount (reach_from ?g n 0 0) > 0
        then real (r_reachableCount (reach_from ?g n 0 0))
               / real_of_int (r_totalDist (reach_from ?g n 0 0))
        else 0"
  note dist = well_formedD(1)[OF wf]
  have "calculateCloseness ?g = fold (\<lambda>n m. AList.update (node_id n) (?val n) m) ns []"
    unfolding calculateCloseness_def new_nodes
    by (rule arg_cong[where f="\<lambda>f. fold f ns []"])
      (simp add: fun_eq_iff closeness_source_update)
  also have "\<dots> = map (\<lambda>n. (node_id n, ?val n)) ns"
    using fold_update_fresh[of "[]" ns ?val] dist by simp
  finally have "map_of (calculateCloseness ?g) (node_id n) = Some (?val n)"
    using map_of_node_map[OF dist n, of ?val] by simp
  moreover have "?val n = closeness_spec es (node_id n)"
    using reach_from_result(1,2)[OF wf n, of 0 0] reach_from_result(3)[OF wf n]
    by (auto simp: closeness_spec_def card_gt_0_iff)
  ultimately show ?thesis by simp
qed

subsection \<open>Betweenness of a node that no search reaches\<close>

lemma dq_visit_queue:
  assumes "dq_visit v w (d, q) = (d', q')"
  shows "set q' \<subseteq> insert w (set q)"
  using assms by (auto simp: dq_visit_pair split: if_splits)

lemma dq_fold_queue:
  assumes "fold (dq_visit v) ws (d, q) = (d', q')"
  shows "set q' \<subseteq> set q \<union> set ws"
  using assms
proof (induction ws arbitrary: d q)
  case Nil
  then show ?case by simp
next
  case (Cons w ws)
  obtain d1 q1 where 1: "dq_visit v w (d, q) = (d1, q1)" by (cases "dq_visit v w (d, q)")
  with Cons.prems have "fold (dq_visit v) ws (d1, q1) = (d', q')" by simp
  from Cons.IH[OF this] dq_visit_queue[OF 1] show ?case by auto
qed

lemma between_visit_stack: "b_stack (between_visit v w st) = b_stack st"
  by (simp add: between_visit_def Let_def)

lemma between_fold_stack: "b_stack (fold (between_visit v) ws st) = b_stack st"
  by (induction ws arbitrary: st) (simp_all add: between_visit_stack)

lemma between_bfs_stack:
  "set (b_stack (between_bfs a st)) \<subseteq> set (b_stack st) \<union> set (b_queue st) \<union> all_members a"
proof (induction a st rule: between_bfs.induct)
  case (1 a st)
  show ?case
  proof (cases "b_queue st")
    case Nil
    then have "between_bfs a st = st" by (subst between_bfs.simps) simp
    then show ?thesis by auto
  next
    case (Cons v q)
    let ?st1 = "fold (between_visit v) (successors a v) (st\<lparr>b_queue := q, b_stack := b_stack st @ [v]\<rparr>)"
    have r: "between_bfs a st = between_bfs a ?st1"
      using Cons by (subst between_bfs.simps) simp
    have proj: "fold (dq_visit v) (successors a v) (b_d st, q) = (b_d ?st1, b_queue ?st1)"
      using between_fold_dq[of v "successors a v" "st\<lparr>b_queue := q, b_stack := b_stack st @ [v]\<rparr>"]
      by simp
    have q1: "set (b_queue ?st1) \<subseteq> set q \<union> all_members a"
      using dq_fold_queue[OF proj] successors_subset[of a v] by auto
    have s1: "b_stack ?st1 = b_stack st @ [v]"
      by (simp add: between_fold_stack)
    from "1.IH"[OF Cons] q1 s1 Cons show ?thesis
      unfolding r by auto
  qed
qed

lemma back_node_cb:
  assumes "x \<noteq> w \<or> w = s"
  shows "map_of (snd (back_node st s w (delta, cb))) x = map_of cb x"
  using assms by (auto simp: back_node_def Let_def update_conv')

lemma back_fold_cb:
  assumes "x \<notin> set stk \<or> x = s"
  shows "map_of (snd (fold (back_node st s) stk (delta, cb))) x = map_of cb x"
  using assms
proof (induction stk arbitrary: delta cb)
  case Nil
  then show ?case by simp
next
  case (Cons w stk)
  obtain delta1 cb1 where 1: "back_node st s w (delta, cb) = (delta1, cb1)"
    by (cases "back_node st s w (delta, cb)")
  from Cons.prems have "x \<noteq> w \<or> w = s" by auto
  from back_node_cb[OF this, of st delta cb] 1 have "map_of cb1 x = map_of cb x" by simp
  moreover from Cons.prems have "x \<notin> set stk \<or> x = s" by auto
  from Cons.IH[OF this, of delta1 cb1] have
    "map_of (snd (fold (back_node st s) stk (delta1, cb1))) x = map_of cb1 x" .
  ultimately show ?case by (simp add: 1)
qed

lemma between_source_unreached:
  assumes "x \<notin> all_members (adj g)"
  shows "map_of (between_source g n cb) x = map_of cb x"
proof -
  let ?init = "\<lparr>b_stack = [], b_P = init_map (nodes g) [],
       b_sigma = AList.update (node_id n) 1 (init_map (nodes g) 0),
       b_d = AList.update (node_id n) 0 (init_map (nodes g) (- 1)),
       b_queue = [node_id n]\<rparr>"
  let ?st = "between_bfs (adj g) ?init"
  have "set (b_stack ?st) \<subseteq> insert (node_id n) (all_members (adj g))"
    using between_bfs_stack[of "adj g" ?init] by auto
  with assms have "x \<notin> set (rev (b_stack ?st)) \<or> x = node_id n" by auto
  from back_fold_cb[OF this] show ?thesis
    by (simp add: between_source_def Let_def)
qed

lemma normalise_zero:
  assumes "map_of m x = Some 0"
  shows "map_of (fold (\<lambda>node m. AList.update (node_id node)
                     (get_bang m (node_id node) / c) m) ms m) x = Some (0 :: real)"
  using assms
proof (induction ms arbitrary: m)
  case Nil
  then show ?case by simp
next
  case (Cons node ms)
  have "map_of (AList.update (node_id node) (get_bang m (node_id node) / c) m) x = Some 0"
    using Cons.prems by (auto simp: update_conv' get_bang_def)
  from Cons.IH[OF this] show ?case by simp
qed

lemma betweenness_unreached:
  assumes "x \<notin> all_members (adj g)" and "x \<in> node_id ` set (nodes g)"
  shows "map_of (calculateBetweenness g) x = Some 0"
proof -
  let ?cb = "fold (between_source g) (nodes g) (init_map (nodes g) 0)"
  have "map_of (fold (between_source g) ms cb) x = map_of cb x" for ms cb
    by (induction ms arbitrary: cb) (simp_all add: between_source_unreached[OF assms(1)])
  then have cb: "map_of ?cb x = Some 0"
    using assms(2) by (simp add: map_of_init_map)
  show ?thesis
  proof (cases "(int (length (nodes g)) - 1) * (int (length (nodes g)) - 2) > 0")
    case True
    then show ?thesis
      unfolding calculateBetweenness_def Let_def using normalise_zero[OF cb]
      by (simp only: if_True)
  next
    case False
    then show ?thesis
      unfolding calculateBetweenness_def Let_def using cb
      by (simp only: if_False)
  qed
qed

lemma distinct_keys_fold_update:
  "distinct (map fst acc) \<Longrightarrow>
   distinct (map fst (fold (\<lambda>n m. AList.update (node_id n) (f n) m) ns acc))"
  by (induction ns arbitrary: acc) (simp_all add: distinct_update)

lemma distinct_keys_new_adj: "distinct (map fst (adj (new_NetworkAnalyzer ns es)))"
  using distinct_keys_fold_update[of "[]" "\<lambda>_. []" ns]
  by (simp add: new_NetworkAnalyzer_def fold_add_edge_fields keys_fold_opt_add init_sets_def)

lemma all_members_new_adj:
  "all_members (adj (new_NetworkAnalyzer ns es)) \<subseteq> target ` set es"
proof
  fix x assume "x \<in> all_members (adj (new_NetworkAnalyzer ns es))"
  then obtain k s where ks: "(k, s) \<in> set (adj (new_NetworkAnalyzer ns es))" "x \<in> set s"
    by (auto simp: all_members_def)
  from map_of_is_SomeI[OF distinct_keys_new_adj ks(1)]
  have "s = out_targets es k"
    by (simp add: map_of_new_adj split: if_splits)
  with ks(2) show "x \<in> target ` set es"
    by (auto simp: set_out_targets)
qed

subsection \<open>Predecessor lists of the betweenness search\<close>

definition P_inv :: "between_state \<Rightarrow> bool" where
  "P_inv st =
     (dom (map_of (b_P st)) = dom (map_of (b_d st))
      \<and> set (b_stack st) \<subseteq> {v. vis (b_d st) v}
      \<and> (\<forall>w v. v \<in> set (successors (b_P st) w) \<longrightarrow>
             vis (b_d st) v \<and> map_of (b_d st) w = Some (get_bang (b_d st) v + 1)))"

lemma successors_update:
  "successors (AList.update k x m) w = (if w = k then x else successors m w)"
  by (simp add: successors_def update_conv')

lemma successors_get_bang: "w \<in> dom (map_of m) \<Longrightarrow> get_bang m w = successors m w"
  by (auto simp: successors_def get_bang_def)

lemma between_visit_P:
  assumes inv: "P_inv st" and dv: "map_of (b_d st) v = Some c" and c0: "0 \<le> c"
  shows "P_inv (between_visit v w st)" and "map_of (b_d (between_visit v w st)) v = Some c"
proof -
  let ?d = "b_d st"
  let ?P = "b_P st"
  have gv: "get_bang ?d v = c" using dv by (simp add: get_bang_def)
  have vv: "vis ?d v" using dv c0 by (auto simp: vis_def)
  from inv have domP: "dom (map_of ?P) = dom (map_of ?d)"
    and stk: "set (b_stack st) \<subseteq> {v. vis ?d v}"
    and ent: "\<And>w v. v \<in> set (successors ?P w) \<Longrightarrow>
               vis ?d v \<and> map_of ?d w = Some (get_bang ?d v + 1)"
    unfolding P_inv_def by blast+
  have add: "P_inv (st\<lparr>b_sigma := sg, b_P := AList.update w (get_bang ?P w @ [v]) ?P\<rparr>)"
    if w: "map_of ?d w = Some (c + 1)" for sg
  proof -
    from w have wd: "w \<in> dom (map_of ?P)" unfolding domP by auto
    have "dom (map_of (AList.update w (get_bang ?P w @ [v]) ?P)) = dom (map_of ?d)"
      using wd domP by (auto simp: update_conv')
    moreover have "vis ?d v' \<and> map_of ?d w' = Some (get_bang ?d v' + 1)"
      if "v' \<in> set (successors (AList.update w (get_bang ?P w @ [v]) ?P) w')" for w' v'
    proof (cases "w' = w \<and> v' = v")
      case True
      with vv w gv show ?thesis by simp
    next
      case False
      with that have "v' \<in> set (successors ?P w')"
        by (auto simp: successors_update successors_get_bang[OF wd] split: if_splits)
      then show ?thesis by (rule ent)
    qed
    ultimately show ?thesis
      unfolding P_inv_def using stk by simp
  qed
  show "P_inv (between_visit v w st)"
  proof (cases "map_of ?d w = Some (- 1)")
    case False
    show ?thesis
    proof (cases "map_of ?d w = Some (c + 1)")
      case True
      with False gv add[OF True] show ?thesis
        by (simp add: between_visit_def Let_def)
    next
      case F2: False
      with False gv inv show ?thesis
        by (simp add: between_visit_def Let_def)
    qed
  next
    case True
    let ?d1 = "AList.update w (c + 1) ?d"
    let ?st1 = "st\<lparr>b_d := ?d1, b_queue := b_queue st @ [w]\<rparr>"
    from True have nv: "\<not> vis ?d w" by (rule not_vis_unvisited)
    from True dv c0 have wv: "w \<noteq> v" by auto
    have other: "vis ?d1 u = vis ?d u" "get_bang ?d1 u = get_bang ?d u" "map_of ?d1 u = map_of ?d u"
      if "u \<noteq> w" for u
      using that by (simp_all add: vis_def get_bang_def update_conv')
    have inv1: "P_inv ?st1"
      unfolding P_inv_def
    proof (intro conjI allI impI)
      show "dom (map_of (b_P ?st1)) = dom (map_of (b_d ?st1))"
        using domP True by (auto simp: update_conv')
      show "set (b_stack ?st1) \<subseteq> {v. vis (b_d ?st1) v}"
      proof
        fix x assume "x \<in> set (b_stack ?st1)"
        with stk have vx: "vis ?d x" by auto
        with nv have "x \<noteq> w" by auto
        with vx other(1) show "x \<in> {v. vis (b_d ?st1) v}" by simp
      qed
    next
      fix w' v' assume "v' \<in> set (successors (b_P ?st1) w')"
      then have e: "vis ?d v'" "map_of ?d w' = Some (get_bang ?d v' + 1)"
        using ent by simp_all
      with nv have "v' \<noteq> w" by auto
      moreover have "w' \<noteq> w"
      proof
        assume "w' = w"
        with e(2) True have "get_bang ?d v' = - 2" by simp
        with vis_get_nonneg[OF e(1)] show False by simp
      qed
      ultimately show "vis (b_d ?st1) v'" "map_of (b_d ?st1) w' = Some (get_bang (b_d ?st1) v' + 1)"
        using e other by simp_all
    qed
    have dv1: "map_of (b_d ?st1) v = Some c" using dv wv by (simp add: update_conv')
    have w1: "map_of (b_d ?st1) w = Some (c + 1)" by (simp add: update_conv')
    have "between_visit v w st =
            ?st1\<lparr>b_sigma := AList.update w (get_bang (b_sigma ?st1) w + get_bang (b_sigma ?st1) v) (b_sigma ?st1),
                 b_P := AList.update w (get_bang (b_P ?st1) w @ [v]) (b_P ?st1)\<rparr>"
      using True gv wv by (simp add: between_visit_def Let_def get_bang_def update_conv')
    moreover have "P_inv (?st1\<lparr>b_sigma := sg, b_P := AList.update w (get_bang (b_P ?st1) w @ [v]) (b_P ?st1)\<rparr>)" for sg
    proof -
      from inv1 have domP1: "dom (map_of (b_P ?st1)) = dom (map_of (b_d ?st1))"
        and stk1: "set (b_stack ?st1) \<subseteq> {v. vis (b_d ?st1) v}"
        and ent1: "\<And>w v. v \<in> set (successors (b_P ?st1) w) \<Longrightarrow>
               vis (b_d ?st1) v \<and> map_of (b_d ?st1) w = Some (get_bang (b_d ?st1) v + 1)"
        unfolding P_inv_def by blast+
      have wd: "w \<in> dom (map_of (b_P ?st1))" unfolding domP1 using w1 by auto
      have gb: "get_bang (b_P st) w = successors (b_P st) w"
        using successors_get_bang[OF wd] by simp
      have vv1: "vis (b_d ?st1) v" using dv1 c0 by (auto simp: vis_def)
      have gv1: "get_bang (b_d ?st1) v = c" using dv1 by (simp add: get_bang_def)
      have "dom (map_of (AList.update w (get_bang (b_P ?st1) w @ [v]) (b_P ?st1))) = dom (map_of (b_d ?st1))"
        using wd domP1 by (auto simp: update_conv')
      moreover have "vis (b_d ?st1) v' \<and> map_of (b_d ?st1) w' = Some (get_bang (b_d ?st1) v' + 1)"
        if "v' \<in> set (successors (AList.update w (get_bang (b_P ?st1) w @ [v]) (b_P ?st1)) w')" for w' v'
      proof (cases "w' = w \<and> v' = v")
        case True
        with vv1 w1 gv1 show ?thesis by simp
      next
        case False
        with that have "v' \<in> set (successors (b_P ?st1) w')"
          by (auto simp: successors_update gb split: if_splits)
        then show ?thesis by (rule ent1)
      qed
      ultimately show ?thesis
        unfolding P_inv_def using stk1 by simp
    qed
    ultimately show ?thesis by simp
  qed
  show "map_of (b_d (between_visit v w st)) v = Some c"
    using dv c0 by (auto simp: between_visit_def Let_def update_conv')
qed

lemma between_fold_P:
  assumes "P_inv st" and "map_of (b_d st) v = Some c" and "0 \<le> c"
  shows "P_inv (fold (between_visit v) ws st)"
  using assms
proof (induction ws arbitrary: st)
  case Nil
  then show ?case by simp
next
  case (Cons w ws)
  note s = between_visit_P[OF Cons.prems, of w]
  from Cons.IH[OF s(1) s(2) Cons.prems(3)] show ?case by simp
qed

lemma between_bfs_result:
  assumes "dq_inv a s (b_d st) (b_queue st)" and "P_inv st"
  shows "dq_inv a s (b_d (between_bfs a st)) []
       \<and> P_inv (between_bfs a st)
       \<and> map fst (b_d (between_bfs a st)) = map fst (b_d st)"
  using assms
proof (induction a st rule: between_bfs.induct)
  case (1 a st)
  show ?case
  proof (cases "b_queue st")
    case Nil
    then have "between_bfs a st = st" by (subst between_bfs.simps) simp
    with "1.prems" Nil show ?thesis by simp
  next
    case (Cons v q)
    let ?st0 = "st\<lparr>b_queue := q, b_stack := b_stack st @ [v]\<rparr>"
    let ?st1 = "fold (between_visit v) (successors a v) ?st0"
    have r: "between_bfs a st = between_bfs a ?st1"
      using Cons by (subst between_bfs.simps) simp
    have proj: "fold (dq_visit v) (successors a v) (b_d st, q) = (b_d ?st1, b_queue ?st1)"
      using between_fold_dq[of v "successors a v" ?st0] by simp
    from "1.prems"(1) Cons have inv0: "dq_inv a s (b_d st) (v # q)" by simp
    from dq_inv_step[OF inv0 proj] have inv1: "dq_inv a s (b_d ?st1) (b_queue ?st1)" .
    from inv0 have vv: "vis (b_d st) v" by (simp add: dq_inv_def)
    then obtain c where c: "map_of (b_d st) v = Some c" "0 \<le> c" by (auto simp: vis_def)
    have "P_inv ?st0"
      using "1.prems"(2) vv by (simp add: P_inv_def)
    from between_fold_P[OF this, of v c "successors a v"] c have p1: "P_inv ?st1" by simp
    have keys: "map fst (b_d ?st1) = map fst (b_d st)"
      using dq_fold_keys[OF proj] .
    from "1.IH"[OF Cons inv1 p1] keys show ?thesis
      unfolding r by simp
  qed
qed

text \<open>With at most two keys, only the source can be a predecessor on a shortest path.\<close>

lemma small_graph_pred:
  assumes inv: "dq_inv a s d q" and v: "vis d v" and w: "map_of d w = Some (get_bang d v + 1)"
    and small: "card (dom (map_of d)) \<le> 2"
  shows "v = s"
proof (rule ccontr)
  assume ne: "v \<noteq> s"
  with inv v have "has_parent a d v" by (simp add: dq_inv_def)
  then obtain p where p: "vis d p" "get_bang d v = get_bang d p + 1"
    unfolding has_parent_def by blast
  from vis_get_nonneg[OF p(1)] p(2) have gv: "1 \<le> get_bang d v" by simp
  have gw: "get_bang d w = get_bang d v + 1" using w by (simp add: get_bang_def)
  have gs: "get_bang d s = 0" using inv by (simp add: dq_inv_def get_bang_def)
  have "s \<in> dom (map_of d)" using inv by (auto simp: dq_inv_def)
  moreover have "v \<in> dom (map_of d)" using v by (rule vis_dom)
  moreover have "w \<in> dom (map_of d)" using w by auto
  ultimately have sub: "{s, v, w} \<subseteq> dom (map_of d)" by simp
  have "s \<noteq> v" "v \<noteq> w" "s \<noteq> w" using gv gw gs by auto
  then have "card {s, v, w} = 3" by simp
  moreover have "card {s, v, w} \<le> card (dom (map_of d))"
    by (rule card_mono[OF finite_dom_map_of sub])
  ultimately show False using small by simp
qed

subsection \<open>Back-propagation when every predecessor is the source\<close>

lemma back_steps_other:
  "x \<notin> set vs \<Longrightarrow> map_of (fold (back_step sigma w) vs delta) x = map_of delta x"
  by (induction vs arbitrary: delta) (auto simp: back_step_def update_conv')

lemma back_node_small:
  assumes P: "set (successors (b_P st) w) \<subseteq> {s}"
    and z: "\<forall>x. x \<noteq> s \<longrightarrow> x \<in> D \<longrightarrow> map_of delta x = Some 0"
    and w: "w \<in> D" and cb: "D \<subseteq> dom (map_of cb)"
    and r: "back_node st s w (delta, cb) = (delta', cb')"
  shows "(\<forall>x. x \<noteq> s \<longrightarrow> x \<in> D \<longrightarrow> map_of delta' x = Some 0) \<and> map_of cb' = map_of cb"
proof -
  from r have d': "delta' = fold (back_step (b_sigma st) w) (successors (b_P st) w) delta"
    and c': "cb' = (if w \<noteq> s then AList.update w (get_bang cb w + get_bang delta' w) cb else cb)"
    by (auto simp: back_node_def Let_def)
  have same: "map_of delta' x = map_of delta x" if "x \<noteq> s" for x
    unfolding d' using that P by (intro back_steps_other) auto
  with z have z': "\<forall>x. x \<noteq> s \<longrightarrow> x \<in> D \<longrightarrow> map_of delta' x = Some 0" by simp
  have "map_of cb' = map_of cb"
  proof (cases "w = s")
    case True
    with c' show ?thesis by simp
  next
    case False
    with z' w have "get_bang delta' w = 0" by (simp add: get_bang_def)
    moreover from w cb obtain y where "map_of cb w = Some y" by auto
    ultimately show ?thesis
      using False by (auto simp: c' update_conv' get_bang_def)
  qed
  with z' show ?thesis by simp
qed

lemma back_fold_small:
  assumes "\<forall>w \<in> set stk. set (successors (b_P st) w) \<subseteq> {s} \<and> w \<in> D"
    and "\<forall>x. x \<noteq> s \<longrightarrow> x \<in> D \<longrightarrow> map_of delta x = Some 0"
    and "D \<subseteq> dom (map_of cb)"
  shows "map_of (snd (fold (back_node st s) stk (delta, cb))) = map_of cb"
  using assms
proof (induction stk arbitrary: delta cb)
  case Nil
  then show ?case by simp
next
  case (Cons w stk)
  obtain delta1 cb1 where 1: "back_node st s w (delta, cb) = (delta1, cb1)"
    by (cases "back_node st s w (delta, cb)")
  from Cons.prems(1) have P: "set (successors (b_P st) w) \<subseteq> {s}" and w: "w \<in> D"
    and rest: "\<forall>w \<in> set stk. set (successors (b_P st) w) \<subseteq> {s} \<and> w \<in> D"
    by simp_all
  from back_node_small[OF P Cons.prems(2) w Cons.prems(3) 1]
  have z1: "\<forall>x. x \<noteq> s \<longrightarrow> x \<in> D \<longrightarrow> map_of delta1 x = Some 0" and c1: "map_of cb1 = map_of cb"
    by simp_all
  from Cons.prems(3) c1 have "D \<subseteq> dom (map_of cb1)" by (simp add: dom_def)
  from Cons.IH[OF rest z1 this] c1 show ?case by (simp add: 1)
qed

lemma P_inv_initial:
  "P_inv \<lparr>b_stack = [], b_P = init_map ns [], b_sigma = sg,
          b_d = AList.update (node_id n) 0 (init_map ns (- 1)), b_queue = [node_id n]\<rparr>"
  if "n \<in> set ns"
  using that
  by (auto simp: P_inv_def successors_def map_of_init_map update_conv' dom_def split: if_splits)

lemma between_source_small:
  assumes n: "n \<in> set ns" and small: "length ns \<le> 2"
    and cb: "dom (map_of cb) = node_id ` set ns"
  shows "map_of (between_source (new_NetworkAnalyzer ns es) n cb) = map_of cb"
proof -
  let ?g = "new_NetworkAnalyzer ns es"
  let ?s = "node_id n"
  let ?init = "\<lparr>b_stack = [], b_P = init_map ns [],
       b_sigma = AList.update ?s 1 (init_map ns 0),
       b_d = AList.update ?s 0 (init_map ns (- 1)),
       b_queue = [?s]\<rparr>"
  let ?st = "between_bfs (adj ?g) ?init"
  let ?D = "node_id ` set ns"
  have "dq_inv (adj ?g) ?s (b_d ?init) (b_queue ?init)"
    using dq_inv_initial[of "adj ?g" n ns] by simp
  from between_bfs_result[OF this P_inv_initial[OF n]]
  have inv: "dq_inv (adj ?g) ?s (b_d ?st) []" and P: "P_inv ?st"
    and keys: "map fst (b_d ?st) = map fst (b_d ?init)"
    by simp_all
  have "dom (map_of (b_d ?st)) = dom (map_of (b_d ?init))"
    using arg_cong[OF keys, of set] by (simp add: dom_map_of_conv_image_fst)
  also have "\<dots> = ?D"
    using n by (auto simp: update_conv' map_of_init_map dom_def split: if_splits)
  finally have dom: "dom (map_of (b_d ?st)) = ?D" .
  have "card ?D \<le> length ns"
    using card_image_le[of "set ns" node_id] card_length[of ns] by simp
  with small dom have c2: "card (dom (map_of (b_d ?st))) \<le> 2" by simp
  have stk: "\<forall>w \<in> set (rev (b_stack ?st)). set (successors (b_P ?st) w) \<subseteq> {?s} \<and> w \<in> ?D"
  proof
    fix w assume "w \<in> set (rev (b_stack ?st))"
    with P have "vis (b_d ?st) w" by (auto simp: P_inv_def)
    from vis_dom[OF this] dom have wD: "w \<in> ?D" by simp
    have "set (successors (b_P ?st) w) \<subseteq> {?s}"
    proof
      fix v assume "v \<in> set (successors (b_P ?st) w)"
      with P have "vis (b_d ?st) v" "map_of (b_d ?st) w = Some (get_bang (b_d ?st) v + 1)"
        unfolding P_inv_def by blast+
      from small_graph_pred[OF inv this c2] show "v \<in> {?s}" by simp
    qed
    with wD show "set (successors (b_P ?st) w) \<subseteq> {?s} \<and> w \<in> ?D" by simp
  qed
  have z: "\<forall>x. x \<noteq> ?s \<longrightarrow> x \<in> ?D \<longrightarrow> map_of (init_map ns (0 :: real)) x = Some 0"
    by (simp add: map_of_init_map)
  have "?D \<subseteq> dom (map_of cb)" using cb by simp
  from back_fold_small[OF stk z this] show ?thesis
    by (simp add: between_source_def Let_def)
qed

lemma betweenness_small:
  assumes small: "length ns \<le> 2" and n: "n \<in> set ns"
  shows "map_of (calculateBetweenness (new_NetworkAnalyzer ns es)) (node_id n) = Some 0"
proof -
  let ?g = "new_NetworkAnalyzer ns es"
  have f: "map_of (fold (between_source ?g) ms cb) = map_of cb"
    if "set ms \<subseteq> set ns" "dom (map_of cb) = node_id ` set ns" for ms cb
    using that
  proof (induction ms arbitrary: cb)
    case Nil
    then show ?case by simp
  next
    case (Cons m ms)
    from Cons.prems have m: "m \<in> set ns" and ms: "set ms \<subseteq> set ns" by simp_all
    from between_source_small[OF m small Cons.prems(2)]
    have 1: "map_of (between_source ?g m cb) = map_of cb" .
    with Cons.prems(2) have "dom (map_of (between_source ?g m cb)) = node_id ` set ns" by simp
    from Cons.IH[OF ms this] 1 show ?case by simp
  qed
  have "dom (map_of (init_map ns (0 :: real))) = node_id ` set ns"
    by (auto simp: map_of_init_map dom_def split: if_splits)
  from f[OF subset_refl this]
  have cb: "map_of (fold (between_source ?g) ns (init_map ns 0)) (node_id n) = Some 0"
    using n by (simp add: map_of_init_map)
  from n have "ns \<noteq> []" by auto
  with small have "\<not> (int (length ns) - 1) * (int (length ns) - 2) > 0"
    by (cases ns; cases "tl ns") (auto simp: le_Suc_eq)
  then show ?thesis
    unfolding calculateBetweenness_def Let_def new_nodes using cb
    by (simp only: if_False)
qed

lemma reachable_from_no_out:
  assumes "\<forall>e \<in> set es. source e \<noteq> s"
  shows "reachable_from es s = {}"
proof -
  have "t = s" if "(s, t) \<in> (edge_pairs es)\<^sup>*" for t
    using that
  proof (cases rule: converse_rtranclE)
    case base
    then show ?thesis by simp
  next
    case (step y)
    with assms show ?thesis by (auto simp: edge_pairs_def)
  qed
  then show ?thesis by (auto simp: reachable_from_def)
qed

subsection \<open>The component search\<close>

definition nb_rel :: "jsset jsmap \<Rightarrow> (string \<times> string) set" where
  "nb_rel a = {(v, w). w \<in> set (successors a v)}"

lemma ngc_visit_fold_facts:
  assumes "fold ngc_visit ws (vs, q) = (vs', q')"
  shows "set vs' = set vs \<union> set ws
       \<and> set q' = set q \<union> (set ws - set vs)
       \<and> length vs' + length q = length vs + length q'
       \<and> (distinct vs \<longrightarrow> distinct vs')"
  using assms
proof (induction ws arbitrary: vs q)
  case Nil
  then show ?case by simp
next
  case (Cons w ws)
  obtain vs1 q1 where 1: "ngc_visit w (vs, q) = (vs1, q1)" by (cases "ngc_visit w (vs, q)")
  with Cons.prems have f: "fold ngc_visit ws (vs1, q1) = (vs', q')" by simp
  from 1 have s1: "set vs1 = insert w (set vs)" "set q1 = set q \<union> ({w} - set vs)"
    "length vs1 + length q = length vs + length q1" "distinct vs \<longrightarrow> distinct vs1"
    by (auto simp: ngc_visit_pair split: if_splits)
  from Cons.IH[OF f] have ih: "set vs' = set vs1 \<union> set ws"
    "set q' = set q1 \<union> (set ws - set vs1)"
    "length vs' + length q1 = length vs1 + length q'"
    "distinct vs1 \<longrightarrow> distinct vs'"
    by simp_all
  have "set vs' = set vs \<union> set (w # ws)" using ih(1) s1(1) by auto
  moreover have "set q' = set q \<union> (set (w # ws) - set vs)" using ih(2) s1(1,2) by auto
  moreover have "length vs' + length q = length vs + length q'" using ih(3) s1(3) by simp
  moreover have "distinct vs \<longrightarrow> distinct vs'" using ih(4) s1(4) by simp
  ultimately show ?case by simp
qed

text \<open>The visited set is closed under neighbours, except for the nodes still queued.\<close>

definition ngc_pending :: "jsset jsmap \<Rightarrow> jsset \<Rightarrow> string list \<Rightarrow> bool" where
  "ngc_pending a vs q =
     (set q \<subseteq> set vs \<and> (\<forall>u \<in> set vs - set q. set (successors a u) \<subseteq> set vs))"

lemma ngc_bfs_result:
  assumes "ngc_pending a vs q"
  shows "set vs \<subseteq> set (fst (ngc_bfs a vs q n))
       \<and> set (fst (ngc_bfs a vs q n)) \<subseteq> set vs \<union> (nb_rel a)\<^sup>* `` set q
       \<and> (\<forall>u \<in> set (fst (ngc_bfs a vs q n)). set (successors a u) \<subseteq> set (fst (ngc_bfs a vs q n)))
       \<and> snd (ngc_bfs a vs q n) + length vs = n + length q + length (fst (ngc_bfs a vs q n))
       \<and> (distinct vs \<longrightarrow> distinct (fst (ngc_bfs a vs q n)))"
  using assms
proof (induction a vs q n rule: ngc_bfs.induct)
  case (1 a visited currentSize)
  then show ?case by (simp add: ngc_pending_def ngc_bfs.simps)
next
  case (2 a visited v queue currentSize)
  obtain vs1 q1 where f: "fold ngc_visit (successors a v) (visited, queue) = (vs1, q1)"
    by (cases "fold ngc_visit (successors a v) (visited, queue)")
  note facts = ngc_visit_fold_facts[OF f]
  from facts have s1: "set vs1 = set visited \<union> set (successors a v)"
    and sq: "set q1 = set queue \<union> (set (successors a v) - set visited)"
    and len: "length vs1 + length queue = length visited + length q1"
    and dist: "distinct visited \<longrightarrow> distinct vs1"
    by simp_all
  from "2.prems" have vq: "v \<in> set visited" "set queue \<subseteq> set visited"
    and cl: "\<forall>u \<in> set visited - set (v # queue). set (successors a u) \<subseteq> set visited"
    by (simp_all add: ngc_pending_def)
  have pend: "ngc_pending a vs1 q1"
    unfolding ngc_pending_def
  proof (intro conjI ballI)
    show "set q1 \<subseteq> set vs1" using sq s1 vq by auto
    fix u assume u: "u \<in> set vs1 - set q1"
    then have uv: "u \<in> set visited" "u \<notin> set queue" using s1 sq by auto
    show "set (successors a u) \<subseteq> set vs1"
    proof (cases "u = v")
      case True
      then show ?thesis using s1 by auto
    next
      case False
      with uv cl have "set (successors a u) \<subseteq> set visited" by auto
      then show ?thesis using s1 by auto
    qed
  qed
  have r: "ngc_bfs a visited (v # queue) currentSize = ngc_bfs a vs1 q1 (currentSize + 1)"
    by (simp add: f ngc_bfs.simps)
  note ih = "2.IH"[OF f[symmetric] pend]
  have reach: "(nb_rel a)\<^sup>* `` set q1 \<subseteq> (nb_rel a)\<^sup>* `` set (v # queue)"
  proof
    fix x assume "x \<in> (nb_rel a)\<^sup>* `` set q1"
    then obtain y where y: "y \<in> set q1" "(y, x) \<in> (nb_rel a)\<^sup>*" by auto
    show "x \<in> (nb_rel a)\<^sup>* `` set (v # queue)"
    proof (cases "y \<in> set queue")
      case True
      with y show ?thesis by auto
    next
      case False
      with y sq have "(v, y) \<in> nb_rel a" by (auto simp: nb_rel_def)
      from this y(2) have "(v, x) \<in> (nb_rel a)\<^sup>*" by (rule converse_rtrancl_into_rtrancl)
      then show ?thesis by auto
    qed
  qed
  have succ_reach: "set (successors a v) \<subseteq> (nb_rel a)\<^sup>* `` set (v # queue)"
    by (auto simp: nb_rel_def Image_def intro!: bexI[of _ v] r_into_rtrancl)
  show ?case
    unfolding r
  proof (intro conjI)
    show "set visited \<subseteq> set (fst (ngc_bfs a vs1 q1 (currentSize + 1)))"
      using ih s1 by auto
    show "set (fst (ngc_bfs a vs1 q1 (currentSize + 1)))
            \<subseteq> set visited \<union> (nb_rel a)\<^sup>* `` set (v # queue)"
      using ih s1 reach succ_reach by blast
    show "\<forall>u \<in> set (fst (ngc_bfs a vs1 q1 (currentSize + 1))).
            set (successors a u) \<subseteq> set (fst (ngc_bfs a vs1 q1 (currentSize + 1)))"
      using ih by blast
    show "snd (ngc_bfs a vs1 q1 (currentSize + 1)) + length visited
            = currentSize + length (v # queue) + length (fst (ngc_bfs a vs1 q1 (currentSize + 1)))"
      using ih len by simp
    show "distinct visited \<longrightarrow> distinct (fst (ngc_bfs a vs1 q1 (currentSize + 1)))"
      using ih dist by blast
  qed
qed

definition component_of :: "jsset jsmap \<Rightarrow> string \<Rightarrow> string set" where
  "component_of a v = (nb_rel a)\<^sup>* `` {v}"

definition nb_closed :: "jsset jsmap \<Rightarrow> string set \<Rightarrow> bool" where
  "nb_closed a S = (\<forall>u \<in> S. set (successors a u) \<subseteq> S)"

lemma closed_reach:
  assumes "nb_closed a S" and "v \<in> S"
  shows "component_of a v \<subseteq> S"
proof
  fix x assume "x \<in> component_of a v"
  then have "(v, x) \<in> (nb_rel a)\<^sup>*" by (simp add: component_of_def)
  then show "x \<in> S"
  proof (induction rule: rtrancl_induct)
    case base
    show ?case by (rule assms(2))
  next
    case (step y z)
    with assms(1) show ?case by (auto simp: nb_closed_def nb_rel_def)
  qed
qed

lemma component_sym:
  assumes "sym (nb_rel a)" and "v \<in> component_of a s"
  shows "component_of a v = component_of a s" and "s \<in> component_of a v"
proof -
  from assms(2) have sv: "(s, v) \<in> (nb_rel a)\<^sup>*" by (simp add: component_of_def)
  from sym_rtrancl[OF assms(1)] sv have vs: "(v, s) \<in> (nb_rel a)\<^sup>*" by (rule symD)
  then show "s \<in> component_of a v" by (simp add: component_of_def)
  show "component_of a v = component_of a s"
    unfolding component_of_def using sv vs by (auto intro: rtrancl_trans)
qed

lemma component_step:
  assumes cl: "nb_closed a (set vs)" and d: "distinct vs" and s: "s \<notin> set vs"
    and sy: "sym (nb_rel a)"
  shows "nb_closed a (set (fst (ngc_bfs a (vs @ [s]) [s] 0)))"
    and "distinct (fst (ngc_bfs a (vs @ [s]) [s] 0))"
    and "set (fst (ngc_bfs a (vs @ [s]) [s] 0)) = set vs \<union> component_of a s"
    and "snd (ngc_bfs a (vs @ [s]) [s] 0) = card (component_of a s)"
proof -
  let ?r = "ngc_bfs a (vs @ [s]) [s] 0"
  have "ngc_pending a (vs @ [s]) [s]"
    using cl by (auto simp: ngc_pending_def nb_closed_def)
  from ngc_bfs_result[OF this, of 0] d s
  have sub: "set (vs @ [s]) \<subseteq> set (fst ?r)"
    and sup: "set (fst ?r) \<subseteq> set (vs @ [s]) \<union> (nb_rel a)\<^sup>* `` set [s]"
    and cl': "nb_closed a (set (fst ?r))"
    and len: "snd ?r + length (vs @ [s]) = 0 + length [s] + length (fst ?r)"
    and d': "distinct (fst ?r)"
    by (simp_all add: nb_closed_def)
  show "nb_closed a (set (fst ?r))" by (rule cl')
  show "distinct (fst ?r)" by (rule d')
  have sin: "s \<in> set (fst ?r)" using sub by simp
  have comp_sub: "component_of a s \<subseteq> set (fst ?r)" by (rule closed_reach[OF cl' sin])
  have self: "s \<in> component_of a s" by (simp add: component_of_def)
  show eq: "set (fst ?r) = set vs \<union> component_of a s"
    using sub sup comp_sub self by (auto simp: component_of_def)
  have disj: "set vs \<inter> component_of a s = {}"
  proof (rule ccontr)
    assume "set vs \<inter> component_of a s \<noteq> {}"
    then obtain u where u: "u \<in> set vs" "u \<in> component_of a s" by auto
    from component_sym(2)[OF sy u(2)] closed_reach[OF cl u(1)] have "s \<in> set vs" by auto
    with s show False by simp
  qed
  have fin: "finite (component_of a s)"
    using comp_sub by (rule finite_subset) simp
  have "length (fst ?r) = card (set (fst ?r))" using d' by (simp add: distinct_card)
  also have "\<dots> = card (set vs) + card (component_of a s)"
    unfolding eq using disj fin by (simp add: card_Un_disjoint)
  also have "card (set vs) = length vs" using d by (simp add: distinct_card)
  finally show "snd ?r = card (component_of a s)" using len by simp
qed

definition comp_inv :: "jsset jsmap \<Rightarrow> string list \<Rightarrow> jsset \<Rightarrow> nat \<Rightarrow> bool" where
  "comp_inv a ps vs mx =
     (distinct vs \<and> nb_closed a (set vs) \<and> set ps \<subseteq> set vs
      \<and> (\<forall>v \<in> set vs. card (component_of a v) \<le> mx)
      \<and> (if ps = [] then mx = 0 \<and> vs = [] else \<exists>v \<in> set ps. mx = card (component_of a v)))"

lemma comp_inv_step:
  assumes inv: "comp_inv a ps vs mx" and sy: "sym (nb_rel a)"
    and r: "ngc_component a node (vs, mx) = (vs', mx')"
  shows "comp_inv a (ps @ [node_id node]) vs' mx'"
proof (cases "node_id node \<in> set vs")
  case True
  with r have eq: "vs' = vs" "mx' = mx" by (simp_all add: ngc_component_def)
  from True inv have "ps \<noteq> []" by (auto simp: comp_inv_def split: if_splits)
  with inv True show ?thesis
    unfolding eq comp_inv_def by auto
next
  case False
  let ?s = "node_id node"
  let ?r = "ngc_bfs a (vs @ [?s]) [?s] 0"
  from inv have d: "distinct vs" and cl: "nb_closed a (set vs)" by (simp_all add: comp_inv_def)
  note st = component_step[OF cl d False sy]
  from r False have eq: "vs' = fst ?r" "mx' = max mx (snd ?r)"
    by (simp_all add: ngc_component_def split: prod.splits)
  have bound: "\<forall>v \<in> set vs'. card (component_of a v) \<le> mx'"
  proof
    fix v assume "v \<in> set vs'"
    then consider "v \<in> set vs" | "v \<in> component_of a ?s" using st(3) eq(1) by auto
    then show "card (component_of a v) \<le> mx'"
    proof cases
      case 1
      with inv have "card (component_of a v) \<le> mx" by (simp add: comp_inv_def)
      then show ?thesis by (simp add: eq(2))
    next
      case 2
      from component_sym(1)[OF sy 2] show ?thesis by (simp add: eq(2) st(4))
    qed
  qed
  have att: "\<exists>v \<in> set (ps @ [?s]). mx' = card (component_of a v)"
  proof (cases "mx \<le> snd ?r")
    case True
    then have "mx' = card (component_of a ?s)" by (simp add: eq(2) st(4) max_def)
    then show ?thesis by auto
  next
    case F: False
    then have m: "mx' = mx" "0 < mx" by (simp_all add: eq(2) max_def)
    with inv have "ps \<noteq> []" by (auto simp: comp_inv_def split: if_splits)
    with inv m show ?thesis by (auto simp: comp_inv_def)
  qed
  have "set (ps @ [?s]) \<subseteq> set vs'"
    using inv st(3) eq(1) by (auto simp: comp_inv_def component_of_def)
  with st(1,2) bound att show ?thesis
    unfolding comp_inv_def eq(1)[symmetric] by simp
qed

lemma comp_inv_fold:
  assumes "comp_inv a ps vs mx" and "sym (nb_rel a)"
    and "fold (ngc_component a) ns (vs, mx) = (vs', mx')"
  shows "comp_inv a (ps @ map node_id ns) vs' mx'"
  using assms
proof (induction ns arbitrary: ps vs mx)
  case Nil
  then show ?case by simp
next
  case (Cons n ns)
  obtain vs1 mx1 where 1: "ngc_component a n (vs, mx) = (vs1, mx1)"
    by (cases "ngc_component a n (vs, mx)")
  from comp_inv_step[OF Cons.prems(1,2) 1] have "comp_inv a (ps @ [node_id n]) vs1 mx1" .
  from Cons.IH[OF this Cons.prems(2)] Cons.prems(3) 1 show ?case by simp
qed

lemma maxComponentSize_char:
  assumes "sym (nb_rel (ngc_adj ns es))"
  shows "\<forall>n \<in> set ns. card (component_of (ngc_adj ns es) (node_id n)) \<le> maxComponentSize ns es"
    and "ns \<noteq> [] \<Longrightarrow>
          \<exists>n \<in> set ns. maxComponentSize ns es = card (component_of (ngc_adj ns es) (node_id n))"
    and "ns = [] \<Longrightarrow> maxComponentSize ns es = 0"
proof -
  let ?a = "ngc_adj ns es"
  obtain vsF mxF where f: "fold (ngc_component ?a) ns ([], 0) = (vsF, mxF)"
    by (cases "fold (ngc_component ?a) ns ([], 0)")
  then have m: "maxComponentSize ns es = mxF" by (simp add: maxComponentSize_def)
  have "comp_inv ?a [] [] 0" by (simp add: comp_inv_def nb_closed_def)
  from comp_inv_fold[OF this assms f] have inv: "comp_inv ?a (map node_id ns) vsF mxF" by simp
  show "\<forall>n \<in> set ns. card (component_of ?a (node_id n)) \<le> maxComponentSize ns es"
    using inv unfolding m comp_inv_def by auto
  show "\<exists>n \<in> set ns. maxComponentSize ns es = card (component_of ?a (node_id n))" if "ns \<noteq> []"
    using inv that unfolding m comp_inv_def by auto
  show "maxComponentSize ns es = 0" if "ns = []"
    using that by (simp add: maxComponentSize_def)
qed

subsection \<open>The undirected view of the graph\<close>

definition und_edges :: "Edge list \<Rightarrow> (string \<times> string) set" where
  "und_edges es = edge_pairs es \<union> (edge_pairs es)\<inverse>"

definition both_ways :: "Edge list \<Rightarrow> (string \<times> string) list" where
  "both_ways es = concat (map (\<lambda>e. [(source e, target e), (target e, source e)]) es)"

lemma set_both_ways: "set (both_ways es) = und_edges es"
  by (auto simp: both_ways_def und_edges_def edge_pairs_def)

lemma ngc_adj_fold:
  "fold (\<lambda>e m. opt_add (opt_add m (source e) (target e)) (target e) (source e)) es m =
     fold (\<lambda>p m. opt_add m (fst p) (snd p)) (both_ways es) m"
  by (induction es arbitrary: m) (simp_all add: both_ways_def)

lemma set_successors_ngc_adj:
  "set (successors (ngc_adj ns es) v) =
     (if v \<in> node_id ` set ns then {w. (v, w) \<in> und_edges es} else {})"
proof -
  have "map_of (ngc_adj ns es) v =
          map_option (fold set_add (map snd (filter (\<lambda>p. fst p = v) (both_ways es))))
            (map_of (init_sets ns) v)"
    unfolding ngc_adj_def ngc_adj_fold by (rule map_of_fold_opt_add)
  then show ?thesis
    by (auto simp: successors_def map_of_init_sets set_fold_set_add set_both_ways[symmetric]
        image_iff)
qed

lemma nb_rel_ngc_adj:
  assumes "edges_closed ns es"
  shows "nb_rel (ngc_adj ns es) = und_edges es"
proof -
  have "v \<in> node_id ` set ns" if "(v, w) \<in> und_edges es" for v w
    using that edges_closedD[OF assms] by (auto simp: und_edges_def edge_pairs_def)
  then show ?thesis
    by (auto simp: nb_rel_def set_successors_ngc_adj split: if_splits)
qed

lemma sym_und_edges: "sym (und_edges es)"
  by (auto simp: und_edges_def sym_def)

lemma finite_und_component: "finite ((und_edges es)\<^sup>* `` {v})"
proof -
  have "finite (und_edges es)" by (simp add: und_edges_def finite_edge_pairs)
  then have "finite (insert v (snd ` und_edges es))" by simp
  moreover have "(und_edges es)\<^sup>* `` {v} \<subseteq> insert v (snd ` und_edges es)"
  proof
    fix x assume "x \<in> (und_edges es)\<^sup>* `` {v}"
    then have "(v, x) \<in> (und_edges es)\<^sup>*" by simp
    then show "x \<in> insert v (snd ` und_edges es)"
      by (cases rule: rtranclE) (auto simp: image_iff intro: bexI[of _ "(_, x)"])
  qed
  ultimately show ?thesis by (rule rev_finite_subset)
qed

lemma maxComponentSize_mono:
  assumes c1: "edges_closed ns' es'" and c2: "edges_closed ns es"
    and sub: "node_id ` set ns' \<subseteq> node_id ` set ns"
    and esub: "set es' \<subseteq> set es"
  shows "maxComponentSize ns' es' \<le> maxComponentSize ns es"
proof (cases "ns' = []")
  case True
  then show ?thesis by (simp add: maxComponentSize_def)
next
  case False
  have r1: "nb_rel (ngc_adj ns' es') = und_edges es'" by (rule nb_rel_ngc_adj[OF c1])
  have r2: "nb_rel (ngc_adj ns es) = und_edges es" by (rule nb_rel_ngc_adj[OF c2])
  have s1: "sym (nb_rel (ngc_adj ns' es'))" unfolding r1 by (rule sym_und_edges)
  have s2: "sym (nb_rel (ngc_adj ns es))" unfolding r2 by (rule sym_und_edges)
  from maxComponentSize_char(2)[OF s1 False] obtain n where
    n: "n \<in> set ns'" "maxComponentSize ns' es' = card (component_of (ngc_adj ns' es') (node_id n))"
    by blast
  from n(1) sub obtain m where m: "m \<in> set ns" "node_id m = node_id n" by force
  have "und_edges es' \<subseteq> und_edges es"
    using esub by (auto simp: und_edges_def edge_pairs_def)
  then have "(und_edges es')\<^sup>* \<subseteq> (und_edges es)\<^sup>*" by (rule rtrancl_mono)
  then have "component_of (ngc_adj ns' es') (node_id n) \<subseteq> component_of (ngc_adj ns es) (node_id n)"
    unfolding component_of_def r1 r2 by auto
  moreover have "finite (component_of (ngc_adj ns es) (node_id n))"
    unfolding component_of_def r2 by (rule finite_und_component)
  ultimately have "card (component_of (ngc_adj ns' es') (node_id n))
      \<le> card (component_of (ngc_adj ns es) (node_id n))"
    by (intro card_mono)
  also have "\<dots> \<le> maxComponentSize ns es"
    using maxComponentSize_char(1)[OF s2] m by force
  finally show ?thesis using n(2) by simp
qed

lemma ngc_times_length:
  "calculateNGC ns es * real (length ns) = real (maxComponentSize ns es)"
proof (cases "ns = []")
  case True
  then show ?thesis by (simp add: calculateNGC_def maxComponentSize_def)
next
  case False
  then show ?thesis by (simp add: calculateNGC_def)
qed

subsection \<open>The graphs of the removal sweep\<close>

lemma set_insert_sorted: "set (insert_sorted cmp x ys) = insert x (set ys)"
  by (induction ys) auto

lemma distinct_insert_sorted: "distinct (insert_sorted cmp x ys) = (x \<notin> set ys \<and> distinct ys)"
  by (induction ys) (auto simp: set_insert_sorted)

lemma set_js_sort: "set (js_sort cmp xs) = set xs"
  by (induction xs) (auto simp: js_sort_def set_insert_sorted)

lemma distinct_js_sort: "distinct (js_sort cmp xs) = distinct xs"
proof (induction xs)
  case Nil
  then show ?case by (simp add: js_sort_def)
next
  case (Cons x xs)
  have "js_sort cmp (x # xs) = insert_sorted cmp x (js_sort cmp xs)" by (simp add: js_sort_def)
  with Cons show ?case by (simp add: distinct_insert_sorted set_js_sort)
qed

definition remaining_nodes :: "Node list \<Rightarrow> string list \<Rightarrow> nat \<Rightarrow> Node list" where
  "remaining_nodes ns srt i =
     filter (\<lambda>n. node_id n \<in> set (drop (nodesToRemove (length ns) i) srt)) ns"

definition remaining_edges :: "Node list \<Rightarrow> Edge list \<Rightarrow> string list \<Rightarrow> nat \<Rightarrow> Edge list" where
  "remaining_edges ns es srt i =
     filter (\<lambda>e. source e \<in> set (drop (nodesToRemove (length ns) i) srt)
               \<and> target e \<in> set (drop (nodesToRemove (length ns) i) srt)) es"

lemma robustness_point_ngc:
  "point_ngc (robustness_point g strat srt i) =
     calculateNGC (remaining_nodes (nodes g) srt i) (remaining_edges (nodes g) (edges g) srt i)"
  by (simp add: robustness_point_def remaining_nodes_def remaining_edges_def Let_def)

lemma remaining_ids:
  assumes "set srt = node_id ` set ns"
  shows "node_id ` set (remaining_nodes ns srt i) = set (drop (nodesToRemove (length ns) i) srt)"
proof -
  have "set (drop (nodesToRemove (length ns) i) srt) \<subseteq> node_id ` set ns"
    using set_drop_subset[of "nodesToRemove (length ns) i" srt] assms by simp
  then show ?thesis by (auto simp: remaining_nodes_def)
qed

lemma remaining_closed:
  assumes "set srt = node_id ` set ns"
  shows "edges_closed (remaining_nodes ns srt i) (remaining_edges ns es srt i)"
  unfolding edges_closed_def list_all_iff
  using remaining_ids[OF assms, of i] by (auto simp: remaining_edges_def)

lemma remaining_mono:
  assumes "i \<le> j"
  shows "node_id ` set (remaining_nodes ns srt j) \<subseteq> node_id ` set (remaining_nodes ns srt i)"
    and "set (remaining_edges ns es srt j) \<subseteq> set (remaining_edges ns es srt i)"
proof -
  have "set (drop (nodesToRemove (length ns) j) srt) \<subseteq> set (drop (nodesToRemove (length ns) i) srt)"
    by (rule set_drop_subset_set_drop[OF nodesToRemove_mono[OF assms]])
  then show "node_id ` set (remaining_nodes ns srt j) \<subseteq> node_id ` set (remaining_nodes ns srt i)"
    "set (remaining_edges ns es srt j) \<subseteq> set (remaining_edges ns es srt i)"
    by (auto simp: remaining_nodes_def remaining_edges_def)
qed

lemma remaining_length:
  assumes d: "distinct (map node_id ns)" and s: "set srt = node_id ` set ns" and ds: "distinct srt"
  shows "length (remaining_nodes ns srt i) = length ns - nodesToRemove (length ns) i"
proof -
  let ?D = "set (drop (nodesToRemove (length ns) i) srt)"
  have len: "length srt = length ns"
    using distinct_card[OF ds] distinct_card[OF d] s by simp
  have sub: "?D \<subseteq> node_id ` set ns"
    using set_drop_subset[of "nodesToRemove (length ns) i" srt] s by simp
  have "length (remaining_nodes ns srt i) = length (filter (\<lambda>x. x \<in> ?D) (map node_id ns))"
    by (simp add: remaining_nodes_def filter_map comp_def)
  also have "\<dots> = card (set (filter (\<lambda>x. x \<in> ?D) (map node_id ns)))"
    by (rule distinct_card[symmetric]) (rule distinct_filter[OF d])
  also have "set (filter (\<lambda>x. x \<in> ?D) (map node_id ns)) = ?D"
    using sub by auto
  also have "card ?D = length (drop (nodesToRemove (length ns) i) srt)"
    by (rule distinct_card) (rule distinct_drop[OF ds])
  finally show ?thesis by (simp add: len)
qed

lemma sweep_monotone:
  assumes s: "set srt = node_id ` set ns" and ij: "i \<le> j"
  shows "maxComponentSize (remaining_nodes ns srt j) (remaining_edges ns es srt j)
           \<le> maxComponentSize (remaining_nodes ns srt i) (remaining_edges ns es srt i)"
  by (rule maxComponentSize_mono[OF remaining_closed[OF s] remaining_closed[OF s]
        remaining_mono[OF ij]])

text \<open>
  In the words of the specification: the NGC is the fraction of nodes in the largest
  connected component of the undirected view of the graph.
\<close>

definition component :: "Edge list \<Rightarrow> string \<Rightarrow> string set" where
  "component es v = (und_edges es)\<^sup>* `` {v}"

definition largest_component :: "Node list \<Rightarrow> Edge list \<Rightarrow> nat" where
  "largest_component ns es = Max (insert 0 ((\<lambda>n. card (component es (node_id n))) ` set ns))"

lemma component_within:
  assumes c: "edges_closed ns es" and v: "v \<in> node_id ` set ns"
  shows "component es v \<subseteq> node_id ` set ns"
proof
  fix x assume "x \<in> component es v"
  then have "(v, x) \<in> (und_edges es)\<^sup>*" by (simp add: component_def)
  then show "x \<in> node_id ` set ns"
  proof (induction rule: rtrancl_induct)
    case base
    show ?case by (rule v)
  next
    case (step y z)
    from step(2) edges_closedD[OF c] show ?case
      by (auto simp: und_edges_def edge_pairs_def)
  qed
qed

lemma maxComponentSize_is_largest:
  assumes c: "edges_closed ns es"
  shows "maxComponentSize ns es = largest_component ns es"
proof (cases "ns = []")
  case True
  then show ?thesis by (simp add: maxComponentSize_def largest_component_def)
next
  case False
  have r: "nb_rel (ngc_adj ns es) = und_edges es" by (rule nb_rel_ngc_adj[OF c])
  have s: "sym (nb_rel (ngc_adj ns es))" unfolding r by (rule sym_und_edges)
  have co: "component_of (ngc_adj ns es) v = component es v" for v
    by (simp add: component_of_def component_def r)
  let ?S = "insert 0 ((\<lambda>n. card (component es (node_id n))) ` set ns)"
  have "Max ?S = maxComponentSize ns es"
  proof (rule Max_eqI)
    show "finite ?S" by simp
    show "y \<le> maxComponentSize ns es" if "y \<in> ?S" for y
      using that maxComponentSize_char(1)[OF s] by (auto simp: co)
    show "maxComponentSize ns es \<in> ?S"
      using maxComponentSize_char(2)[OF s False] by (auto simp: co)
  qed
  then show ?thesis by (simp add: largest_component_def)
qed

lemma largest_component_le:
  assumes c: "edges_closed ns es"
  shows "largest_component ns es \<le> length ns"
proof -
  have "card (component es (node_id n)) \<le> length ns" if "n \<in> set ns" for n
  proof -
    have "card (component es (node_id n)) \<le> card (node_id ` set ns)"
      using component_within[OF c, of "node_id n"] that by (intro card_mono) auto
    also have "\<dots> \<le> card (set ns)" by (rule card_image_le) simp
    also have "\<dots> \<le> length ns" by (rule card_length)
    finally show ?thesis .
  qed
  then show ?thesis by (auto simp: largest_component_def)
qed

text \<open>
  Every point of the sweep, for every order of removal: its NGC is the size of the largest
  component of the remaining graph divided by the number of remaining nodes.
\<close>

lemma sweep_point:
  assumes d: "distinct (map node_id ns)" and s: "set srt = node_id ` set ns" and ds: "distinct srt"
  shows "point_ngc (robustness_point (new_NetworkAnalyzer ns es) strat srt i)
           = real (largest_component (remaining_nodes ns srt i) (remaining_edges ns es srt i))
               / real (length ns - nodesToRemove (length ns) i)"
    and "largest_component (remaining_nodes ns srt i) (remaining_edges ns es srt i)
           \<le> length ns - nodesToRemove (length ns) i"
proof -
  let ?rn = "remaining_nodes ns srt i" and ?re = "remaining_edges ns es srt i"
  have c: "edges_closed ?rn ?re" by (rule remaining_closed[OF s])
  have l: "length ?rn = length ns - nodesToRemove (length ns) i"
    by (rule remaining_length[OF d s ds])
  have "calculateNGC ?rn ?re = real (maxComponentSize ?rn ?re) / real (length ?rn)"
    by (simp add: calculateNGC_def maxComponentSize_def)
  then show "point_ngc (robustness_point (new_NetworkAnalyzer ns es) strat srt i)
           = real (largest_component ?rn ?re) / real (length ns - nodesToRemove (length ns) i)"
    by (simp add: robustness_point_ngc maxComponentSize_is_largest[OF c] l)
  show "largest_component ?rn ?re \<le> length ns - nodesToRemove (length ns) i"
    using largest_component_le[OF c] by (simp only: l)
qed

lemma sweep_largest_monotone:
  assumes s: "set srt = node_id ` set ns" and ij: "i \<le> j"
  shows "largest_component (remaining_nodes ns srt j) (remaining_edges ns es srt j)
           \<le> largest_component (remaining_nodes ns srt i) (remaining_edges ns es srt i)"
  using sweep_monotone[OF s ij, of es]
  by (simp add: maxComponentSize_is_largest[OF remaining_closed[OF s]])

lemma simulateRobustness_sweep:
  assumes r: "simulateRobustness g strat shuffle = Inr points"
    and p: "strat = Random \<longrightarrow>
              set (shuffle (map node_id (nodes g))) = set (map node_id (nodes g))
              \<and> distinct (shuffle (map node_id (nodes g)))"
    and d: "distinct (map node_id (nodes g))"
  shows "\<exists>srt. set srt = node_id ` set (nodes g) \<and> distinct srt
           \<and> points = map (robustness_point g strat srt) [0..<21]"
proof (cases "strat = Random")
  case True
  with r p show ?thesis
    by (intro exI[of _ "shuffle (map node_id (nodes g))"]) (auto simp: simulateRobustness_def)
next
  case False
  with r obtain metrics where
    "points = map (robustness_point g strat
                 (js_sort (compare_by strat metrics) (map node_id (nodes g)))) [0..<21]"
    by (auto simp: simulateRobustness_def split: sum.splits)
  with d show ?thesis
    by (intro exI[of _ "js_sort (compare_by strat metrics) (map node_id (nodes g))"])
      (simp add: set_js_sort distinct_js_sort)
qed

subsection \<open>PageRank and DomiRank on graphs whose edges join nodes\<close>

text \<open>
  When the node ids are unique and every edge joins two nodes of the node list, the 50
  iterations of PageRank on a non-empty graph complete, give one value per node, and the
  values sum to exactly 1 in exact arithmetic.
\<close>

lemma pageRank_closed_graph:
  assumes "well_formed ns es" and "ns \<noteq> []"
  shows "\<exists>pr. calculatePageRank (new_NetworkAnalyzer ns es) (85 / 100) 50 = Inr pr \<and>
           map fst pr = map node_id ns \<and> sum_list (map snd pr) = 1"
  unfolding calculatePageRank_def new_nodes
  using pr_loop_invariant[OF assms pr_init_invariant[OF well_formedD(1)[OF assms(1)] assms(2)]]
  by blast

text \<open>
  On the same graphs the DomiRank vector has one entry per node, every entry is a number
  that is not negative, the mass accumulated before the normalisation is a number \<open>t\<close>
  that is not negative, and the entries sum to 1, except that they sum to 0 when \<open>t\<close> is
  exactly 0.
\<close>

lemma domiRank_closed_graph:
  assumes "well_formed ns es"
  shows "\<exists>vals t.
           map fst (calculateDomiRank (new_NetworkAnalyzer ns es) (1 / 10) (1 / 10) 100) = map node_id ns
         \<and> map snd (calculateDomiRank (new_NetworkAnalyzer ns es) (1 / 10) (1 / 10) 100) = map Some vals
         \<and> (\<forall>x \<in> set vals. 0 \<le> x)
         \<and> domi_total (domi_loop (new_NetworkAnalyzer ns es) (1 / 10) (1 / 10) 100) = Some t
         \<and> 0 \<le> t
         \<and> sum_list vals = (if t = 0 then 0 else 1)"
proof -
  let ?g = "new_NetworkAnalyzer ns es"
  let ?gamma = "domi_loop ?g (1 / 10) (1 / 10) 100"
  from domi_loop_nonneg[OF assms, of "1 / 10" "1 / 10" 100]
  have keys: "map fst ?gamma = map node_id ns" and nn: "nonneg_map ?gamma"
    by simp_all
  from nonneg_map_values[OF nn] obtain xs where
    xs: "map snd ?gamma = map Some xs" and pos: "\<forall>x \<in> set xs. 0 \<le> x"
    by blast
  have total: "domi_total ?gamma = Some (sum_list xs)"
    using domi_total_values[OF xs, of 0] by (simp add: domi_total_def)
  have t0: "0 \<le> sum_list xs"
    using pos by (simp add: sum_list_nonneg)
  show ?thesis
  proof (cases "sum_list xs > 0")
    case True
    let ?h = "\<lambda>v. nan_lift2 (/) v (Some (sum_list xs))"
    have d: "distinct (map fst ([] @ ?gamma))"
      using keys well_formedD(1)[OF assms] by simp
    have res: "calculateDomiRank ?g (1 / 10) (1 / 10) 100 = map (\<lambda>kv. (fst kv, ?h (snd kv))) ?gamma"
      using fold_update_each[OF d keys, of ?h] True
      by (simp add: calculateDomiRank_def Let_def total num_gt0_def)
    have "map snd (calculateDomiRank ?g (1 / 10) (1 / 10) 100) = map ?h (map snd ?gamma)"
      by (simp add: res comp_def)
    also have "\<dots> = map Some (map (\<lambda>x. x / sum_list xs) xs)"
      by (simp add: xs comp_def nan_lift2_Some)
    finally have vals: "map snd (calculateDomiRank ?g (1 / 10) (1 / 10) 100)
        = map Some (map (\<lambda>x. x / sum_list xs) xs)" .
    have "sum_list (map (\<lambda>x. x / c) xs) = sum_list xs / c" for c :: real
      by (induction xs) (simp_all add: add_divide_distrib)
    then have "sum_list (map (\<lambda>x. x / sum_list xs) xs) = sum_list xs / sum_list xs" .
    then have one: "sum_list (map (\<lambda>x. x / sum_list xs) xs) = 1"
      using True by simp
    have "\<forall>x \<in> set (map (\<lambda>x. x / sum_list xs) xs). 0 \<le> x"
      using pos t0 by auto
    with vals one total t0 True keys res show ?thesis
      by (intro exI[of _ "map (\<lambda>x. x / sum_list xs) xs"] exI[of _ "sum_list xs"])
        (simp add: comp_def)
  next
    case False
    with t0 have z: "sum_list xs = 0" by simp
    have res: "calculateDomiRank ?g (1 / 10) (1 / 10) 100 = ?gamma"
      using False by (simp add: calculateDomiRank_def Let_def total num_gt0_def)
    from res keys xs pos total z show ?thesis
      by (intro exI[of _ xs] exI[of _ 0]) simp
  qed
qed

subsection \<open>The methods leave the object as it is\<close>

text \<open>
  Each operation on the object returns the value of the corresponding function of the
  fields, and the object it was given.
\<close>

text \<open>
  \<open>forEach\<close> hands the object from one call of the callback to the next: a callback that
  changed the object would be seen by the calls after it and by the caller.
\<close>

lemma forEach_threads:
  "forEach [x, y] body acc g = (case body x acc g of (acc1, g1) \<Rightarrow> body y acc1 g1)"
  by (simp add: forEach_def split: prod.splits)























section \<open>The claims\<close>

lemma well_formed_cycle4: "well_formed cycle4_nodes cycle4_edges"
  by code_simp

text \<open>
  Claim C1, as amended. \<open>calculateNGC\<close> divides the size of the largest component by the
  number of nodes that remain, so the NGC itself may rise along the sweep. What never
  rises is the numerator. For node lists with unique ids the NGC of point \<open>i\<close> is
  \<open>L i / R i\<close>, where \<open>R i\<close>, the number of remaining nodes, is the node count minus
  \<open>nodesToRemove\<close> (the floor of the double product), and \<open>L i \<le> R i\<close>, the size of the
  largest component of the remaining graph, is non-increasing along the 21 points. This
  holds for each of the strategies degree, betweenness, pageRank and domiRank, and for
  every order of removal the random sort may produce. The simulation does return for the
  random strategy, and for the others on every graph whose edges join nodes of the node
  list.
\<close>

theorem component_size_non_increasing:
  assumes "distinct (map node_id ns)"
    and "strat = Random \<longrightarrow>
           set (shuffle (map node_id ns)) = set (map node_id ns)
           \<and> distinct (shuffle (map node_id ns))"
  shows "(\<forall>points. simulateRobustness (new_NetworkAnalyzer ns es) strat shuffle = Inr points \<longrightarrow>
            (\<exists>L. (\<forall>i\<le>20. L i \<le> length ns - nodesToRemove (length ns) i
                        \<and> point_ngc (points ! i)
                            = real (L i) / real (length ns - nodesToRemove (length ns) i))
               \<and> (\<forall>i j. i \<le> j \<longrightarrow> j \<le> 20 \<longrightarrow> L j \<le> L i)))
       \<and> (strat = Random \<or> edges_closed ns es \<longrightarrow>
            (\<exists>points. simulateRobustness (new_NetworkAnalyzer ns es) strat shuffle = Inr points))"
proof (intro conjI allI impI)
  fix points
  assume r: "simulateRobustness (new_NetworkAnalyzer ns es) strat shuffle = Inr points"
  let ?g = "new_NetworkAnalyzer ns es"
  from simulateRobustness_sweep[OF r] assms obtain srt where
    s: "set srt = node_id ` set ns" and ds: "distinct srt"
    and p: "points = map (robustness_point ?g strat srt) [0..<21]"
    by auto
  let ?L = "\<lambda>i. largest_component (remaining_nodes ns srt i) (remaining_edges ns es srt i)"
  have nth: "points ! k = robustness_point ?g strat srt k" if "k \<le> 20" for k
    using that by (simp add: p nth_map del: upt_Suc)
  have "\<forall>i\<le>20. ?L i \<le> length ns - nodesToRemove (length ns) i
          \<and> point_ngc (points ! i) = real (?L i) / real (length ns - nodesToRemove (length ns) i)"
    using sweep_point[OF assms(1) s ds] by (simp add: nth)
  moreover have "\<forall>i j. i \<le> j \<longrightarrow> j \<le> 20 \<longrightarrow> ?L j \<le> ?L i"
    using sweep_largest_monotone[OF s] by simp
  ultimately show "\<exists>L. (\<forall>i\<le>20. L i \<le> length ns - nodesToRemove (length ns) i
                        \<and> point_ngc (points ! i)
                            = real (L i) / real (length ns - nodesToRemove (length ns) i))
               \<and> (\<forall>i j. i \<le> j \<longrightarrow> j \<le> 20 \<longrightarrow> L j \<le> L i)"
    by (intro exI[of _ ?L] conjI)
next
  assume "strat = Random \<or> edges_closed ns es"
  then show "\<exists>points. simulateRobustness (new_NetworkAnalyzer ns es) strat shuffle = Inr points"
    by (rule simulateRobustness_total)
qed

theorem component_size_non_increasing_witness:
  "distinct (map node_id cycle4_nodes) \<and> edges_closed cycle4_nodes cycle4_edges
   \<and> set (rev (map node_id cycle4_nodes)) = set (map node_id cycle4_nodes)
   \<and> distinct (rev (map node_id cycle4_nodes))
   \<and> (\<exists>points (L :: nat \<Rightarrow> nat). simulateRobustness cycle4 Degree rev = Inr points
          \<and> L 10 \<le> length cycle4_nodes - nodesToRemove (length cycle4_nodes) 10
          \<and> point_ngc (points ! 10)
              = real (L 10) / real (length cycle4_nodes - nodesToRemove (length cycle4_nodes) 10)
          \<and> L 10 \<le> L 5)
   \<and> (\<exists>points (L :: nat \<Rightarrow> nat). simulateRobustness cycle4 Random rev = Inr points
          \<and> L 10 \<le> length cycle4_nodes - nodesToRemove (length cycle4_nodes) 10
          \<and> point_ngc (points ! 10)
              = real (L 10) / real (length cycle4_nodes - nodesToRemove (length cycle4_nodes) 10)
          \<and> L 10 \<le> L 5)"
proof -
  have d: "distinct (map node_id cycle4_nodes)" and c: "edges_closed cycle4_nodes cycle4_edges"
    by code_simp+
  have p: "strat = Random \<longrightarrow>
             set (rev (map node_id cycle4_nodes)) = set (map node_id cycle4_nodes)
             \<and> distinct (rev (map node_id cycle4_nodes))" for strat
    using d by simp
  have "\<exists>points (L :: nat \<Rightarrow> nat). simulateRobustness cycle4 strat rev = Inr points
          \<and> L 10 \<le> length cycle4_nodes - nodesToRemove (length cycle4_nodes) 10
          \<and> point_ngc (points ! 10)
              = real (L 10) / real (length cycle4_nodes - nodesToRemove (length cycle4_nodes) 10)
          \<and> L 10 \<le> L 5" for strat
  proof -
    from component_size_non_increasing[where ns = cycle4_nodes and strat = strat
        and shuffle = rev and es = cycle4_edges, OF d p] c
    obtain points L where
      r: "simulateRobustness cycle4 strat rev = Inr points"
      and q: "\<forall>i\<le>20. L i \<le> length cycle4_nodes - nodesToRemove (length cycle4_nodes) i
                \<and> point_ngc (points ! i)
                    = real (L i) / real (length cycle4_nodes - nodesToRemove (length cycle4_nodes) i)"
      and mono: "\<forall>i j. i \<le> j \<longrightarrow> j \<le> 20 \<longrightarrow> L j \<le> L i"
      unfolding cycle4_def by blast
    from q have "L 10 \<le> length cycle4_nodes - nodesToRemove (length cycle4_nodes) 10
        \<and> point_ngc (points ! 10)
            = real (L 10) / real (length cycle4_nodes - nodesToRemove (length cycle4_nodes) 10)"
      by simp
    moreover from mono have "L 10 \<le> L 5" by simp
    ultimately show ?thesis using r by blast
  qed
  with d c show ?thesis by simp
qed

text \<open>
  Two nodes without an edge, degree strategy: the NGC is 1/2 for the first ten points,
  then 1 for the next ten (one node remains and is its own component), then 0.
\<close>

theorem ngc_not_monotone:
  "map_sum id (map point_ngc) (simulateRobustness two_isolated Degree id)
     = Inr [1 / 2, 1 / 2, 1 / 2, 1 / 2, 1 / 2, 1 / 2, 1 / 2, 1 / 2, 1 / 2, 1 / 2,
            1, 1, 1, 1, 1, 1, 1, 1, 1, 1, 0]"
proof -
  from two_isolated_sorted obtain metrics where
    m: "calculateAllMetrics two_isolated = Inr metrics"
    and s: "js_sort (compare_by Degree metrics) (map node_id (nodes two_isolated)) = [''A'', ''B'']"
    by blast
  have "simulateRobustness two_isolated Degree id
          = Inr (map (robustness_point two_isolated Degree [''A'', ''B'']) [0..<21])"
    by (simp add: simulateRobustness_def m s)
  then show ?thesis using two_isolated_points by (simp add: comp_def)
qed

text \<open>
  Claim C2, as amended. For a graph with at most two nodes the betweenness of every node
  is 0. With exactly two nodes the density is the number of edges divided by 2. For an
  empty node set the average shortest path length and the NGC are 0.
\<close>

theorem small_graph_stats:
  assumes "length ns \<le> 2"
  shows "(\<forall>n \<in> set ns. map_of (calculateBetweenness (new_NetworkAnalyzer ns es)) (node_id n) = Some 0)
       \<and> (length ns = 2 \<longrightarrow>
            density (getStats (new_NetworkAnalyzer ns es)) = Finite (real (length es) / 2))
       \<and> (ns = [] \<longrightarrow>
            avgShortestPath (getStats (new_NetworkAnalyzer ns es)) = 0
            \<and> ngc (getStats (new_NetworkAnalyzer ns es)) = 0)"
proof (intro conjI ballI impI)
  fix n assume "n \<in> set ns"
  with assms show "map_of (calculateBetweenness (new_NetworkAnalyzer ns es)) (node_id n) = Some 0"
    by (rule betweenness_small)
next
  assume "length ns = 2"
  then show "density (getStats (new_NetworkAnalyzer ns es)) = Finite (real (length es) / 2)"
    by (simp add: getStats_def Let_def js_div_def split: prod.splits)
next
  assume "ns = []"
  then show "avgShortestPath (getStats (new_NetworkAnalyzer ns es)) = 0"
    "ngc (getStats (new_NetworkAnalyzer ns es)) = 0"
    by (simp_all add: getStats_def Let_def calculateNGC_def split: prod.splits)
qed

theorem small_graph_stats_witness:
  "length [mk_node ''A'', mk_node ''B''] \<le> 2
   \<and> map_of (calculateBetweenness one_edge) ''A'' = Some 0
   \<and> map_of (calculateBetweenness one_edge) ''B'' = Some 0
   \<and> density (getStats one_edge) = Finite (1 / 2)
   \<and> avgShortestPath (getStats (new_NetworkAnalyzer [] [])) = 0
   \<and> ngc (getStats (new_NetworkAnalyzer [] [])) = 0"
  using small_graph_stats[of "[mk_node ''A'', mk_node ''B'']" "[mk_edge ''A'' ''B'']"]
    small_graph_stats[of "[]" "[]"]
  by (simp add: one_edge_def mk_node_def)

text \<open>
  Two nodes joined by one edge have density 1/2, not 0; on the empty graph the density
  and the average clustering are NaN (0/0), not 0.
\<close>

theorem density_not_short_circuited:
  "density (getStats one_edge) = Finite (1 / 2)
   \<and> density (getStats (new_NetworkAnalyzer [] [])) = NaN
   \<and> avgClustering (getStats (new_NetworkAnalyzer [] [])) = NaN"
  by code_simp

text \<open>
  Claim C3, as amended. On the directed 4-cycle A, B, C, D with weights 1 every node has
  in-degree 1 and out-degree 1, \<open>getStats\<close> reports an NGC of 1, and the average
  shortest path length is exactly 2: the search follows the direction of the edges, so
  each source reaches the other three nodes at distances 1, 2 and 3.
\<close>

theorem cycle4_stats:
  "calculateInDegrees cycle4 = [(''A'', 1), (''B'', 1), (''C'', 1), (''D'', 1)]
   \<and> calculateOutDegrees cycle4 = [(''A'', 1), (''B'', 1), (''C'', 1), (''D'', 1)]
   \<and> ngc (getStats cycle4) = 1
   \<and> avgShortestPath (getStats cycle4) = 2"
proof -
  have "calculateInDegrees cycle4 = [(''A'', 1), (''B'', 1), (''C'', 1), (''D'', 1)]"
    by code_simp
  moreover have "calculateOutDegrees cycle4 = [(''A'', 1), (''B'', 1), (''C'', 1), (''D'', 1)]"
    by code_simp
  moreover have "ngc (getStats cycle4) = 1"
    by code_simp
  moreover have "avgShortestPath (getStats cycle4) = 2"
    by code_simp
  ultimately show ?thesis by simp
qed

text \<open>The average shortest path length of the 4-cycle is not 1.5.\<close>

theorem cycle4_avg_path_not_1_5: "avgShortestPath (getStats cycle4) \<noteq> 3 / 2"
proof -
  have "avgShortestPath (getStats cycle4) = 2"
    by code_simp
  then show ?thesis by simp
qed

text \<open>
  Claim C4, as amended. For a well-formed graph (unique node ids, every edge between
  nodes of the list) the in-degrees and the out-degrees both sum to the number of
  distinct ordered (source, target) pairs of the edge list; that is the number of edges
  when no ordered pair occurs twice.
\<close>

theorem degree_sums:
  assumes "well_formed ns es"
  shows "sum_list (map snd (calculateInDegrees (new_NetworkAnalyzer ns es)))
           = real (card (edge_pairs es))
       \<and> sum_list (map snd (calculateOutDegrees (new_NetworkAnalyzer ns es)))
           = real (card (edge_pairs es))
       \<and> (distinct (map (\<lambda>e. (source e, target e)) es) \<longrightarrow>
            sum_list (map snd (calculateInDegrees (new_NetworkAnalyzer ns es)))
              = real (length es)
            \<and> sum_list (map snd (calculateOutDegrees (new_NetworkAnalyzer ns es)))
              = real (length es))"
proof -
  note wf = well_formedD[OF assms]
  let ?V = "node_id ` set ns"
  have src: "fst ` edge_pairs es \<subseteq> ?V" and tgt: "snd ` edge_pairs es \<subseteq> ?V"
    using wf(2,3) by (auto simp: edge_pairs_def)
  have "sum_list (map snd (calculateOutDegrees (new_NetworkAnalyzer ns es)))
          = (\<Sum>n\<leftarrow>ns. real (card {t. (node_id n, t) \<in> edge_pairs es}))"
    by (simp add: out_degrees_map[OF wf(1)] comp_def length_out_targets)
  also have "\<dots> = (\<Sum>v \<in> ?V. real (card {t. (v, t) \<in> edge_pairs es}))"
    by (rule sum_list_ids[OF wf(1)])
  also have "\<dots> = real (\<Sum>v \<in> ?V. card {t. (v, t) \<in> edge_pairs es})"
    by simp
  also have "\<dots> = real (card (edge_pairs es))"
    using card_out_split[OF _ src finite_edge_pairs] by simp
  finally have out: "sum_list (map snd (calculateOutDegrees (new_NetworkAnalyzer ns es)))
          = real (card (edge_pairs es))" .
  have "sum_list (map snd (calculateInDegrees (new_NetworkAnalyzer ns es)))
          = (\<Sum>n\<leftarrow>ns. real (card {s. (s, node_id n) \<in> edge_pairs es}))"
    by (simp add: in_degrees_map[OF wf(1)] comp_def length_in_sources)
  also have "\<dots> = (\<Sum>v \<in> ?V. real (card {s. (s, v) \<in> edge_pairs es}))"
    by (rule sum_list_ids[OF wf(1)])
  also have "\<dots> = real (\<Sum>v \<in> ?V. card {s. (s, v) \<in> edge_pairs es})"
    by simp
  also have "\<dots> = real (card (edge_pairs es))"
    using card_in_split[OF _ tgt finite_edge_pairs] by simp
  finally have inn: "sum_list (map snd (calculateInDegrees (new_NetworkAnalyzer ns es)))
          = real (card (edge_pairs es))" .
  have "distinct (map (\<lambda>e. (source e, target e)) es) \<longrightarrow> card (edge_pairs es) = length es"
    using distinct_card[of "map (\<lambda>e. (source e, target e)) es"] by (auto simp: edge_pairs_def)
  with out inn show ?thesis by simp
qed

theorem degree_sums_witness:
  "well_formed cycle4_nodes cycle4_edges
   \<and> distinct (map (\<lambda>e. (source e, target e)) cycle4_edges)
   \<and> sum_list (map snd (calculateInDegrees (new_NetworkAnalyzer cycle4_nodes cycle4_edges))) = 4
   \<and> sum_list (map snd (calculateOutDegrees (new_NetworkAnalyzer cycle4_nodes cycle4_edges))) = 4"
proof -
  have d: "distinct (map (\<lambda>e. (source e, target e)) cycle4_edges)"
    by code_simp
  have l: "length cycle4_edges = 4"
    by (simp add: cycle4_edges_def)
  from degree_sums[OF well_formed_cycle4] d l well_formed_cycle4 show ?thesis
    by simp
qed

text \<open>
  With the same edge listed twice the degree sums are 1 and the edge list has 2 edges:
  the adjacency sets keep one copy of a repeated pair.
\<close>

theorem degree_sums_duplicate_edge:
  "sum_list (map snd (calculateInDegrees dup_edges)) = 1
   \<and> sum_list (map snd (calculateOutDegrees dup_edges)) = 1
   \<and> length (edges dup_edges) = 2"
  by code_simp

text \<open>
  Claim C5. The claim fails on a graph with an edge to an unknown id. The constructor adds
  the unknown target \<open>X\<close> to the successor set of \<open>A\<close>, so \<open>A\<close> has out-degree 1 and is
  not a sink, and the rank it sends along the edge reaches no node: from the start value 1
  the first iteration leaves 0.15 and every further iteration keeps it. The values after
  the 50 iterations sum to 0.15, not to 1.
\<close>

theorem pageRank_mass_lost_to_unknown_target:
  "map node_id (nodes dangling_target) = [''A'']
   \<and> adj dangling_target = [(''A'', [''X''])]
   \<and> calculatePageRank dangling_target (85 / 100) 50 = Inr [(''A'', 15 / 100)]"
proof -
  have i: "init_map (nodes dangling_target) (1 / real (length (nodes dangling_target)))
             = [(''A'', 1)]"
    by code_simp
  have p1: "pr_iteration dangling_target (85 / 100) [(''A'', 1)] = Inr [(''A'', 15 / 100)]"
    by code_simp
  have p2: "pr_iteration dangling_target (85 / 100) [(''A'', 15 / 100)] = Inr [(''A'', 15 / 100)]"
    by code_simp
  have "pr_loop (Suc 49) dangling_target (85 / 100) [(''A'', 1)]
          = pr_loop 49 dangling_target (85 / 100) [(''A'', 15 / 100)]"
    unfolding pr_loop.simps p1 by simp
  moreover have "(50 :: nat) = Suc 49" by simp
  ultimately have "calculatePageRank dangling_target (85 / 100) 50 = Inr [(''A'', 15 / 100)]"
    unfolding calculatePageRank_def i by (simp only: pr_loop_fixed[OF p2])
  moreover have "map node_id (nodes dangling_target) = [''A'']"
    by code_simp
  moreover have "adj dangling_target = [(''A'', [''X''])]"
    by code_simp
  ultimately show ?thesis by simp
qed

text \<open>
  Claim C6. The claim fails on the same graph. DomiRank adds \<open>gamma.get(X)\<close> for the
  unknown successor \<open>X\<close> of \<open>A\<close>; that value is \<open>undefined\<close>, the sum is NaN, and NaN
  stays through the clamp, the 100 iterations and the skipped normalisation. The entry of
  \<open>A\<close> in the result is NaN (\<open>None\<close>), which is neither non-negative nor part of a sum of
  1 or 0.
\<close>

theorem domiRank_nan_from_unknown_target:
  "adj dangling_target = [(''A'', [''X''])]
   \<and> calculateDomiRank dangling_target (1 / 10) (1 / 10) 100 = [(''A'', None)]"
  by code_simp

text \<open>
  Claim C7. In a well-formed graph the closeness of a node \<open>s\<close> is the number of nodes
  other than \<open>s\<close> that are reachable from \<open>s\<close> along the edges, divided by the sum of
  their distances from \<open>s\<close> (the least number of edges of a path), and it is 0 when
  \<open>s\<close> reaches no other node. A node that is neither source nor target of any edge has
  closeness 0 and betweenness 0.
\<close>

theorem closeness_and_isolated:
  assumes wf: "well_formed ns es" and n: "n \<in> set ns"
  shows "map_of (calculateCloseness (new_NetworkAnalyzer ns es)) (node_id n)
           = Some (closeness_spec es (node_id n))
       \<and> (reachable_from es (node_id n) = {} \<longrightarrow>
            map_of (calculateCloseness (new_NetworkAnalyzer ns es)) (node_id n) = Some 0)
       \<and> ((\<forall>e \<in> set es. source e \<noteq> node_id n \<and> target e \<noteq> node_id n) \<longrightarrow>
            map_of (calculateCloseness (new_NetworkAnalyzer ns es)) (node_id n) = Some 0
            \<and> map_of (calculateBetweenness (new_NetworkAnalyzer ns es)) (node_id n) = Some 0)"
proof (intro conjI impI)
  let ?g = "new_NetworkAnalyzer ns es"
  show c: "map_of (calculateCloseness ?g) (node_id n) = Some (closeness_spec es (node_id n))"
    by (rule closeness_is_spec[OF wf n])
  show "map_of (calculateCloseness ?g) (node_id n) = Some 0"
    if "reachable_from es (node_id n) = {}"
    using c that by (simp add: closeness_spec_def)
  assume iso: "\<forall>e \<in> set es. source e \<noteq> node_id n \<and> target e \<noteq> node_id n"
  then have "reachable_from es (node_id n) = {}"
    by (intro reachable_from_no_out) simp
  with c show "map_of (calculateCloseness ?g) (node_id n) = Some 0"
    by (simp add: closeness_spec_def)
  from iso have "node_id n \<notin> target ` set es" by auto
  with all_members_new_adj[of ns es] have "node_id n \<notin> all_members (adj ?g)" by auto
  moreover have "node_id n \<in> node_id ` set (nodes ?g)" using n by simp
  ultimately show "map_of (calculateBetweenness ?g) (node_id n) = Some 0"
    by (rule betweenness_unreached)
qed

theorem closeness_and_isolated_witness:
  "well_formed cycle4_nodes cycle4_edges \<and> mk_node ''A'' \<in> set cycle4_nodes
   \<and> map_of (calculateCloseness cycle4) ''A'' = Some (closeness_spec cycle4_edges ''A'')
   \<and> closeness_spec cycle4_edges ''A'' = 1 / 2
   \<and> well_formed [mk_node ''A'', mk_node ''B''] []
   \<and> map_of (calculateCloseness two_isolated) ''A'' = Some 0
   \<and> map_of (calculateBetweenness two_isolated) ''A'' = Some 0"
proof -
  have a: "mk_node ''A'' \<in> set cycle4_nodes"
    by (simp add: cycle4_nodes_def)
  have v: "map_of (calculateCloseness cycle4) ''A'' = Some (1 / 2)"
    by code_simp
  have wf2: "well_formed [mk_node ''A'', mk_node ''B''] []"
    by code_simp
  from closeness_and_isolated[OF well_formed_cycle4 a] v
  have "map_of (calculateCloseness cycle4) ''A'' = Some (closeness_spec cycle4_edges ''A'')"
    "closeness_spec cycle4_edges ''A'' = 1 / 2"
    by (simp_all add: cycle4_def mk_node_def)
  moreover have "map_of (calculateCloseness two_isolated) ''A'' = Some 0"
    "map_of (calculateBetweenness two_isolated) ''A'' = Some 0"
    using closeness_and_isolated[OF wf2, of "mk_node ''A''"]
    by (auto simp: two_isolated_def mk_node_def)
  ultimately show ?thesis
    using well_formed_cycle4 a wf2 by simp
qed

text \<open>
  Claim C8. An edge whose source is not a node leaves the unknown id in the predecessor
  set of its target: the constructor guards the lookup of the set, not the id it adds.
  PageRank then reads the successor set of the unknown id and fails with a TypeError.
\<close>

theorem dangling_edge_corrupts_revAdj:
  "revAdj dangling = [(''A'', [''X''])]
   \<and> map node_id (nodes dangling) = [''A'']
   \<and> calculatePageRank dangling (85 / 100) 50 = Inl TypeError"
proof -
  have "revAdj dangling = [(''A'', [''X''])]"
    by code_simp
  moreover have "map node_id (nodes dangling) = [''A'']"
    by code_simp
  moreover have "calculatePageRank dangling (85 / 100) 50 = Inl TypeError"
    by code_simp
  ultimately show ?thesis by simp
qed


text \<open>
  Claim C10. Whenever \<open>simulateRobustness\<close> returns, it returns 21 points and the last
  one, at removal ratio 1, has an NGC of exactly 0; this holds for every strategy, the
  random one included, whatever order the random sort produces, as long as it keeps the
  number of ids. The simulation does return for the random strategy on every graph, and
  for the other strategies on every graph whose edges join nodes of the node list.
\<close>

theorem last_point_ngc_zero:
  assumes "strat = Random \<longrightarrow> length (shuffle (map node_id ns)) = length ns"
  shows "(\<forall>points. simulateRobustness (new_NetworkAnalyzer ns es) strat shuffle = Inr points \<longrightarrow>
            length points = 21 \<and> removalRatio (points ! 20) = 1 \<and> point_ngc (points ! 20) = 0)
       \<and> (strat = Random \<or> edges_closed ns es \<longrightarrow>
            (\<exists>points. simulateRobustness (new_NetworkAnalyzer ns es) strat shuffle = Inr points))"
proof (intro conjI allI impI)
  fix points
  assume r: "simulateRobustness (new_NetworkAnalyzer ns es) strat shuffle = Inr points"
  let ?g = "new_NetworkAnalyzer ns es"
  have "\<exists>srt. length srt = length (nodes ?g) \<and>
          points = map (robustness_point ?g strat srt) [0..<21]"
  proof (cases "strat = Random")
    case True
    with assms r show ?thesis
      by (intro exI[of _ "shuffle (map node_id ns)"]) (simp add: simulateRobustness_def)
  next
    case False
    with r obtain metrics where m: "calculateAllMetrics ?g = Inr metrics"
      by (cases "calculateAllMetrics ?g") (auto simp: simulateRobustness_def)
    with False r show ?thesis
      by (intro exI[of _ "js_sort (compare_by strat metrics) (map node_id ns)"])
        (simp add: simulateRobustness_def length_js_sort)
  qed
  then obtain sortedNodeIds where
    s: "length sortedNodeIds = length (nodes ?g)"
    and p: "points = map (robustness_point ?g strat sortedNodeIds) [0..<21]"
    by blast
  have "points ! 20 = robustness_point ?g strat sortedNodeIds 20"
    unfolding p by (simp add: upt_21 nth_append del: upt_Suc)
  with s p show "length points = 21" "removalRatio (points ! 20) = 1" "point_ngc (points ! 20) = 0"
    by (simp_all add: robustness_point_last)
next
  assume "strat = Random \<or> edges_closed ns es"
  then show "\<exists>points. simulateRobustness (new_NetworkAnalyzer ns es) strat shuffle = Inr points"
    by (rule simulateRobustness_total)
qed

theorem last_point_ngc_zero_witness:
  "length (rev (map node_id cycle4_nodes)) = length cycle4_nodes
   \<and> (\<exists>points. simulateRobustness cycle4 Random rev = Inr points
         \<and> length points = 21 \<and> removalRatio (points ! 20) = 1 \<and> point_ngc (points ! 20) = 0)"
  using last_point_ngc_zero[of Random rev cycle4_nodes cycle4_edges]
  by (auto simp: cycle4_def)

end
